theory Spec2Isabelle
  imports Main
begin

section \<open>Lab7.c: vector addition pipelined over CUDA streams\<close>

text \<open>
  The host program of \<^verbatim>\<open>Lab7.c\<close> is sequential: it issues calls of the CUDA runtime
  (stream creation, allocation, asynchronous copies, kernel launches, releases) and
  aborts at the first checked call that fails. The model has three layers:
  \<^item> the arithmetic of the source (\<open>copySize\<close>, the loop bounds), on \<open>int\<close> with the
    one place where a C \<open>int\<close> can overflow written out;
  \<^item> the host program as the list of steps it issues, run against a platform that
    says what each runtime call returns;
  \<^item> the effect of each issued call on host and device memory, with every element
    access checked against the bounds of the array it touches; a device operation has
    its effect only when the platform answered \<open>cudaSuccess\<close> for it.
  The single-precision values are an arbitrary type with a binary addition: the
  kernel performs one addition per element and nothing in the program depends on what
  that addition computes.
\<close>

subsection \<open>Macros and constants\<close>

text \<open>\<^verbatim>\<open>#define min(a, b) (a < b ? a : b)\<close> and \<^verbatim>\<open>#define max(a, b) (a > b ? a : b)\<close>.\<close>

definition min_macro :: "int \<Rightarrow> int \<Rightarrow> int" where
  "min_macro a b = (if a < b then a else b)"

definition max_macro :: "int \<Rightarrow> int \<Rightarrow> int" where
  "max_macro a b = (if a > b then a else b)"

definition N_STREAMS :: int where
  "N_STREAMS = 4"

definition BLOCK_SIZE :: int where
  "BLOCK_SIZE = 128"

text \<open>\<^verbatim>\<open>const int segmentSize = 128;\<close> (line 90).\<close>

definition segmentSize :: int where
  "segmentSize = 128"

text \<open>The largest value of a C \<open>int\<close> (32 bits on every platform CUDA supports).\<close>

definition INT_MAX :: int where
  "INT_MAX = 2147483647"

text \<open>
  Modelled from the spec: the value of \<^verbatim>\<open>EXIT_FAILURE\<close> comes from the C library's
  header, which is not part of the source; the spec calls it a non-zero status, and it
  is 1 in the C libraries of the platforms the CUDA toolkit runs on.
\<close>

definition EXIT_FAILURE :: int where
  "EXIT_FAILURE = 1"

text \<open>
  Lines 107, 123 and 133 each declare
  \<^verbatim>\<open>const int copySize = max(min(segmentSize, inputLength - i - s*segmentSize), 0);\<close>
  once per phase; the three definitions below are the three declarations.
\<close>

definition copySize_in :: "int \<Rightarrow> int \<Rightarrow> int \<Rightarrow> int" where
  "copySize_in inputLength i s =
     max_macro (min_macro segmentSize (inputLength - i - s * segmentSize)) 0"

definition copySize_launch :: "int \<Rightarrow> int \<Rightarrow> int \<Rightarrow> int" where
  "copySize_launch inputLength i s =
     max_macro (min_macro segmentSize (inputLength - i - s * segmentSize)) 0"

definition copySize_out :: "int \<Rightarrow> int \<Rightarrow> int \<Rightarrow> int" where
  "copySize_out inputLength i s =
     max_macro (min_macro segmentSize (inputLength - i - s * segmentSize)) 0"

subsection \<open>The runtime calls the host issues\<close>

datatype hostArray = hostInput1 | hostInput2 | hostOutput

text \<open>The device buffers are named by the array variable and the stream index.\<close>

datatype devArray = deviceInput1 int | deviceInput2 int | deviceOutput int

text \<open>A host pointer is an array and an element offset into it (\<open>hostInput1 + i + s*segmentSize\<close>).\<close>

datatype pointer = Host hostArray int | Device devArray

datatype cudaMemcpyKind = cudaMemcpyHostToDevice | cudaMemcpyDeviceToHost

text \<open>
  Sizes are counted in elements: the source multiplies each by \<open>sizeof(float)\<close>.
  A launch \<^verbatim>\<open>vecAdd<<<d, BLOCK_SIZE, 0, stream[s]>>>(in1, in2, out, len)\<close> records the
  grid size, the block size, the stream and the kernel's four arguments. The last three
  constructors are runtime calls a host program can issue and this one never does.
\<close>

datatype call =
    malloc hostArray int
  | cudaStreamCreate int
  | cudaMalloc devArray int
  | cudaMemcpyAsync pointer pointer int cudaMemcpyKind int
  | vecAdd_launch int int int devArray devArray devArray int
  | wbSolution hostArray int
  | cudaFree devArray
  | free hostArray
  | cudaStreamSynchronize int
  | cudaDeviceSynchronize
  | cudaStreamDestroy int

datatype cudaError = cudaSuccess | cudaErrorCode nat

text \<open>
  A step of the host: a runtime call whose result goes through \<^verbatim>\<open>check(err)\<close> on the
  given source line, a call whose result the program does not look at, or the
  overflow of the loop counter (undefined behaviour in C).
\<close>

datatype step = Checked call nat | Unchecked call | SignedOverflow

fun call_of :: "step \<Rightarrow> call option" where
  "call_of (Checked c l) = Some c"
| "call_of (Unchecked c) = Some c"
| "call_of SignedOverflow = None"

text \<open>\<^verbatim>\<open>for (int s = 0; s < N_STREAMS; ++s) body\<close>, started at any \<open>s\<close>.\<close>

function for_streams :: "int \<Rightarrow> (int \<Rightarrow> step list) \<Rightarrow> step list" where
  "for_streams s body =
     (if s < N_STREAMS then body s @ for_streams (s + 1) body else [])"
  by pat_completeness auto
termination
  by (relation "measure (\<lambda>(s, body). nat (N_STREAMS - s))") auto

text \<open>The three inner loops of one chunk (lines 105-119, 121-129, 131-139).\<close>

definition copy_in :: "int \<Rightarrow> int \<Rightarrow> step list" where
  "copy_in inputLength i =
     for_streams 0 (\<lambda>s.
       [Checked (cudaMemcpyAsync (Device (deviceInput1 s))
                   (Host hostInput1 (i + s * segmentSize))
                   (copySize_in inputLength i s) cudaMemcpyHostToDevice s) 113,
        Checked (cudaMemcpyAsync (Device (deviceInput2 s))
                   (Host hostInput2 (i + s * segmentSize))
                   (copySize_in inputLength i s) cudaMemcpyHostToDevice s) 118])"

definition compute :: "int \<Rightarrow> int \<Rightarrow> step list" where
  "compute inputLength i =
     for_streams 0 (\<lambda>s.
       [Unchecked (vecAdd_launch ((segmentSize - 1) div BLOCK_SIZE + 1) BLOCK_SIZE s
                     (deviceInput1 s) (deviceInput2 s) (deviceOutput s)
                     (copySize_launch inputLength i s))])"

definition copy_out :: "int \<Rightarrow> int \<Rightarrow> step list" where
  "copy_out inputLength i =
     for_streams 0 (\<lambda>s.
       [Checked (cudaMemcpyAsync (Host hostOutput (i + s * segmentSize))
                   (Device (deviceOutput s))
                   (copySize_out inputLength i s) cudaMemcpyDeviceToHost s) 138])"

text \<open>The body of the outer loop: the three phases of one chunk, in order.\<close>

definition chunk_steps :: "int \<Rightarrow> int \<Rightarrow> step list" where
  "chunk_steps inputLength i =
     copy_in inputLength i @ compute inputLength i @ copy_out inputLength i"

text \<open>
  \<^verbatim>\<open>for (int i = 0; i < inputLength; i += segmentSize*N_STREAMS)\<close> (line 101). The
  increment is a signed addition: when its result does not fit an \<open>int\<close> the behaviour
  of the program is undefined, and the model stops there. The other integer
  expressions of the loop stay within the range of \<open>int\<close> for \<open>0 \<le> i < inputLength\<close>
  (lemma \<open>copySize_in_range\<close>).
\<close>

function scheduler_loop :: "int \<Rightarrow> int \<Rightarrow> step list" where
  "scheduler_loop inputLength i =
     (if i < inputLength then
        chunk_steps inputLength i @
        (if INT_MAX < i + segmentSize * N_STREAMS then [SignedOverflow]
         else scheduler_loop inputLength (i + segmentSize * N_STREAMS))
      else [])"
  by pat_completeness auto
termination
  by (relation "measure (\<lambda>(inputLength, i). nat (inputLength - i))")
     (auto simp: segmentSize_def N_STREAMS_def)

text \<open>
  The body of \<open>main\<close> from line 74 on, in its four parts: setup (lines 74-96), the
  scheduler loop (lines 101-140), the hand-over of the output vector (line 145) and
  teardown (lines 150-158). The imported vectors and their length are the inputs of the
  model; logging and timing calls are left out.
\<close>

definition setup_steps :: "int \<Rightarrow> step list" where
  "setup_steps inputLength =
     [Unchecked (malloc hostOutput inputLength)] @
     for_streams 0 (\<lambda>s. [Checked (cudaStreamCreate s) 84]) @
     for_streams 0 (\<lambda>s.
       [Checked (cudaMalloc (deviceInput1 s) segmentSize) 93,
        Checked (cudaMalloc (deviceInput2 s) segmentSize) 94,
        Checked (cudaMalloc (deviceOutput s) segmentSize) 95])"

definition teardown_steps :: "step list" where
  "teardown_steps =
     for_streams 0 (\<lambda>s.
       [Checked (cudaFree (deviceInput1 s)) 152,
        Checked (cudaFree (deviceInput2 s)) 153,
        Checked (cudaFree (deviceOutput s)) 154]) @
     [Unchecked (free hostInput1), Unchecked (free hostInput2),
      Unchecked (free hostOutput)]"

definition main_steps :: "int \<Rightarrow> step list" where
  "main_steps inputLength =
     setup_steps inputLength @
     scheduler_loop inputLength 0 @
     [Unchecked (wbSolution hostOutput inputLength)] @
     teardown_steps"

subsection \<open>Running the host against a platform\<close>

text \<open>
  The platform gives the result of the \<open>k\<close>-th call the host issues, the text of
  \<open>cudaGetErrorString\<close> and the expansion of \<^verbatim>\<open>__FILE__\<close>.
\<close>

record platform =
  result :: "nat \<Rightarrow> cudaError"
  cudaGetErrorString :: "cudaError \<Rightarrow> string"
  file_name :: string

datatype outcome = Returned int | Exited int string | Undefined

text \<open>Decimal digits, as \<open>%d\<close> prints a line number.\<close>

fun decimal :: "nat \<Rightarrow> string" where
  "decimal n =
     (if n < 10 then [char_of (48 + n)]
      else decimal (n div 10) @ [char_of (48 + n mod 10)])"

text \<open>
  What \<^verbatim>\<open>check(err)\<close> prints before \<open>exit(EXIT_FAILURE)\<close>:
  \<^verbatim>\<open>printf("\nError found\n%s in %s at line %d", cudaGetErrorString(err), __FILE__, __LINE__)\<close>.
\<close>

definition diagnostic :: "platform \<Rightarrow> cudaError \<Rightarrow> nat \<Rightarrow> string" where
  "diagnostic p err line =
     [CHR 0x0A] @ ''Error found'' @ [CHR 0x0A] @ cudaGetErrorString p err @
     '' in '' @ file_name p @ '' at line '' @ decimal line"

definition check :: "platform \<Rightarrow> cudaError \<Rightarrow> nat \<Rightarrow> outcome option" where
  "check p err line =
     (if err \<noteq> cudaSuccess then Some (Exited EXIT_FAILURE (diagnostic p err line))
      else None)"

text \<open>
  The calls issued so far are the state; the result of a call is the platform's answer
  at its position. The run stops at the first check that fails.
\<close>

fun run :: "platform \<Rightarrow> step list \<Rightarrow> call list \<Rightarrow> outcome option \<times> call list" where
  "run p [] tr = (None, tr)"
| "run p (Checked c line # rest) tr =
     (case check p (result p (length tr)) line of
        Some e \<Rightarrow> (Some e, tr @ [c])
      | None \<Rightarrow> run p rest (tr @ [c]))"
| "run p (Unchecked c # rest) tr = run p rest (tr @ [c])"
| "run p (SignedOverflow # rest) tr = (Some Undefined, tr)"

text \<open>\<open>main\<close> ends with \<^verbatim>\<open>return 0;\<close>.\<close>

definition main :: "platform \<Rightarrow> int \<Rightarrow> outcome \<times> call list" where
  "main p inputLength =
     (case run p (main_steps inputLength) [] of
        (None, tr) \<Rightarrow> (Returned 0, tr)
      | (Some e, tr) \<Rightarrow> (e, tr))"

subsection \<open>The kernel\<close>

datatype fault = OutOfBounds | InvalidDevicePointer | InvalidStream | InvalidMemcpyDirection

text \<open>
  One worker of \<^verbatim>\<open>vecAdd\<close> (lines 44-49), given the contents of the three buffers and
  its block index, block dimension and thread index. An access outside a buffer is a
  fault. The index is computed on natural numbers: with the launch configuration of
  this program (one block of \<open>BLOCK_SIZE\<close> threads) it is below 128, far from the range
  where the \<open>unsigned\<close> product or its conversion to \<open>int\<close> would wrap. Each worker reads
  and writes index \<open>i\<close> only, so running the workers one after the other on the same
  three lists gives what they compute in parallel.
\<close>

definition vecAdd ::
  "'a::plus list \<Rightarrow> 'a list \<Rightarrow> 'a list \<Rightarrow> int \<Rightarrow> nat \<Rightarrow> nat \<Rightarrow> nat \<Rightarrow> fault + 'a list" where
  "vecAdd in1 in2 out len blockIdx blockDim threadIdx =
     (let i = blockIdx * blockDim + threadIdx in
      if int i < len then
        (if i < length in1 \<and> i < length in2 \<and> i < length out
         then Inr (out[i := in1 ! i + in2 ! i])
         else Inl OutOfBounds)
      else Inr out)"

text \<open>
  The workers of a launch \<^verbatim>\<open><<<gridDim, blockDim>>>\<close>, as (block index, thread index).
  They run in some order; \<open>run_threads\<close> runs a given list of them one after the
  other and stops at the first fault.
\<close>

definition threads :: "int \<Rightarrow> int \<Rightarrow> (nat \<times> nat) list" where
  "threads gridDim blockDim = List.product [0..<nat gridDim] [0..<nat blockDim]"

fun run_threads ::
  "'a::plus list \<Rightarrow> 'a list \<Rightarrow> int \<Rightarrow> nat \<Rightarrow> (nat \<times> nat) list \<Rightarrow> 'a list \<Rightarrow> fault + 'a list" where
  "run_threads in1 in2 len blockDim [] out = Inr out"
| "run_threads in1 in2 len blockDim ((b, t) # rest) out =
     (case vecAdd in1 in2 out len b blockDim t of
        Inl f \<Rightarrow> Inl f
      | Inr out' \<Rightarrow> run_threads in1 in2 len blockDim rest out')"

subsection \<open>Memory and the effect of each call\<close>

text \<open>
  Host arrays, device buffers (\<open>None\<close>: not allocated) and the streams that exist.
\<close>

record 'a memory =
  host :: "hostArray \<Rightarrow> 'a list"
  device :: "devArray \<Rightarrow> 'a list option"
  streams :: "int set"

text \<open>Copying \<open>n\<close> elements from \<open>src + s\<close> to \<open>dst + d\<close>; the caller checks the bounds.\<close>

definition copy_elems :: "'a list \<Rightarrow> nat \<Rightarrow> 'a list \<Rightarrow> nat \<Rightarrow> nat \<Rightarrow> 'a list" where
  "copy_elems dst d src s n =
     map (\<lambda>k. if d \<le> k \<and> k < d + n then src ! (s + (k - d)) else dst ! k) [0..<length dst]"

fun contents :: "'a list option \<Rightarrow> 'a list" where
  "contents None = []"
| "contents (Some xs) = xs"

text \<open>
  The effect of a call that is carried out. \<open>u c k\<close> is the indeterminate value of
  element \<open>k\<close> of the block that the allocation \<open>c\<close> returns. A copy of zero elements
  touches no memory; a copy of \<open>n > 0\<close> elements must lie inside both arrays. The model
  does not track the release of host arrays.
\<close>

fun exec_call :: "(call \<Rightarrow> nat \<Rightarrow> 'a) \<Rightarrow> call \<Rightarrow> 'a::plus memory \<Rightarrow> fault + 'a memory" where
  "exec_call u (malloc h n) m =
     Inr (m\<lparr>host := (host m)(h := map (u (malloc h n)) [0..<nat n])\<rparr>)"
| "exec_call u (cudaStreamCreate s) m = Inr (m\<lparr>streams := insert s (streams m)\<rparr>)"
| "exec_call u (cudaMalloc b n) m =
     Inr (m\<lparr>device := (device m)(b \<mapsto> map (u (cudaMalloc b n)) [0..<nat n])\<rparr>)"
| "exec_call u (cudaMemcpyAsync (Device b) (Host h off) n cudaMemcpyHostToDevice s) m =
     (if s \<notin> streams m then Inl InvalidStream
      else if n = 0 then Inr m
      else (case device m b of
              None \<Rightarrow> Inl InvalidDevicePointer
            | Some buf \<Rightarrow>
                if 0 \<le> off \<and> 0 < n \<and> nat off + nat n \<le> length (host m h) \<and> nat n \<le> length buf
                then Inr (m\<lparr>device := (device m)(b \<mapsto> copy_elems buf 0 (host m h) (nat off) (nat n))\<rparr>)
                else Inl OutOfBounds))"
| "exec_call u (cudaMemcpyAsync (Host h off) (Device b) n cudaMemcpyDeviceToHost s) m =
     (if s \<notin> streams m then Inl InvalidStream
      else if n = 0 then Inr m
      else (case device m b of
              None \<Rightarrow> Inl InvalidDevicePointer
            | Some buf \<Rightarrow>
                if 0 \<le> off \<and> 0 < n \<and> nat off + nat n \<le> length (host m h) \<and> nat n \<le> length buf
                then Inr (m\<lparr>host := (host m)(h := copy_elems (host m h) (nat off) buf 0 (nat n))\<rparr>)
                else Inl OutOfBounds))"
| "exec_call u (cudaMemcpyAsync dst src n k s) m = Inl InvalidMemcpyDirection"
| "exec_call u (vecAdd_launch g bd s b1 b2 b3 len) m =
     (if s \<notin> streams m then Inl InvalidStream
      else (case run_threads (contents (device m b1)) (contents (device m b2)) len (nat bd)
                   (threads g bd) (contents (device m b3)) of
              Inl f \<Rightarrow> Inl f
            | Inr out' \<Rightarrow>
                Inr (if device m b3 = None then m
                     else m\<lparr>device := (device m)(b3 \<mapsto> out')\<rparr>)))"
| "exec_call u (wbSolution h n) m = Inr m"
| "exec_call u (cudaFree b) m =
     (if device m b = None then Inl InvalidDevicePointer
      else Inr (m\<lparr>device := (device m)(b := None)\<rparr>))"
| "exec_call u (free h) m = Inr m"
| "exec_call u (cudaStreamSynchronize s) m =
     (if s \<notin> streams m then Inl InvalidStream else Inr m)"
| "exec_call u cudaDeviceSynchronize m = Inr m"
| "exec_call u (cudaStreamDestroy s) m =
     (if s \<notin> streams m then Inl InvalidStream else Inr (m\<lparr>streams := streams m - {s}\<rparr>))"

fun exec_calls :: "(call \<Rightarrow> nat \<Rightarrow> 'a) \<Rightarrow> call list \<Rightarrow> 'a::plus memory \<Rightarrow> fault + 'a memory" where
  "exec_calls u [] m = Inr m"
| "exec_calls u (c # cs) m =
     (case exec_call u c m of Inl f \<Rightarrow> Inl f | Inr m' \<Rightarrow> exec_calls u cs m')"

text \<open>Memory when \<open>main\<close> reaches line 74: the two imported vectors, nothing else.\<close>

definition start :: "'a list \<Rightarrow> 'a list \<Rightarrow> 'a memory" where
  "start in1 in2 =
     \<lparr>host = (\<lambda>h. case h of hostInput1 \<Rightarrow> in1 | hostInput2 \<Rightarrow> in2 | hostOutput \<Rightarrow> []),
      device = (\<lambda>b. None), streams = {}\<rparr>"

subsection \<open>Streams and execution orders\<close>

text \<open>
  The stream a call is queued on, if any, and the number of elements it covers. The
  calls of a stream execute in the order they were issued; calls of different streams
  execute in any order. \<open>stream_order issued sched\<close> says that \<open>sched\<close> is such an order
  of the stream work in \<open>issued\<close>.
\<close>

fun stream_of :: "call \<Rightarrow> int option" where
  "stream_of (cudaMemcpyAsync dst src n k s) = Some s"
| "stream_of (vecAdd_launch g bd s b1 b2 b3 len) = Some s"
| "stream_of c = None"

fun len_of :: "call \<Rightarrow> int option" where
  "len_of (cudaMemcpyAsync dst src n k s) = Some n"
| "len_of (vecAdd_launch g bd s b1 b2 b3 len) = Some len"
| "len_of c = None"

definition calls :: "step list \<Rightarrow> call list" where
  "calls steps = List.map_filter call_of steps"

definition stream_work :: "call list \<Rightarrow> call list" where
  "stream_work tr = filter (\<lambda>c. stream_of c \<noteq> None) tr"

definition on_stream :: "int \<Rightarrow> call list \<Rightarrow> call list" where
  "on_stream s tr = filter (\<lambda>c. stream_of c = Some s) tr"

definition stream_order :: "call list \<Rightarrow> call list \<Rightarrow> bool" where
  "stream_order issued sched =
     (list_all (\<lambda>c. stream_of c \<noteq> None) sched \<and>
      list_all (\<lambda>c. case stream_of c of
                        None \<Rightarrow> True
                      | Some s \<Rightarrow> on_stream s sched = on_stream s issued) (issued @ sched))"

text \<open>
  The calls made before any stream work and before the output vector is handed over:
  they have executed when the first copy is issued.
\<close>

fun is_wbSolution :: "call \<Rightarrow> bool" where
  "is_wbSolution (wbSolution h n) = True"
| "is_wbSolution c = False"

definition host_setup :: "call list \<Rightarrow> call list" where
  "host_setup tr = takeWhile (\<lambda>c. stream_of c = None \<and> \<not> is_wbSolution c) tr"

subsection \<open>What the runtime answered, and what then executes\<close>

text \<open>
  An event is an issued call with the status the platform returned for it. The call at
  position \<open>k\<close> of a run got the answer \<open>result p k\<close>.
\<close>

type_synonym event = "call \<times> cudaError"

fun events_from :: "platform \<Rightarrow> nat \<Rightarrow> call list \<Rightarrow> event list" where
  "events_from p k [] = []"
| "events_from p k (c # cs) = (c, result p k) # events_from p (Suc k) cs"

definition events :: "platform \<Rightarrow> call list \<Rightarrow> event list" where
  "events p tr = events_from p 0 tr"

text \<open>
  The calls that go to the CUDA runtime and can fail with a \<open>cudaError\<close>; \<open>malloc\<close>,
  \<open>wbSolution\<close> and \<open>free\<close> are host calls, and the platform's answer at their position
  means nothing.
\<close>

fun is_device_call :: "call \<Rightarrow> bool" where
  "is_device_call (malloc h n) = False"
| "is_device_call (wbSolution h n) = False"
| "is_device_call (free h) = False"
| "is_device_call c = True"

text \<open>
  A device operation that the platform reported as failed has not been carried out: a
  failed launch runs no worker, a failed copy moves no element, a failed allocation
  returns no buffer. Every other call has the effect \<open>exec_call\<close> gives it.
\<close>

definition exec_event :: "(call \<Rightarrow> nat \<Rightarrow> 'a) \<Rightarrow> event \<Rightarrow> 'a::plus memory \<Rightarrow> fault + 'a memory" where
  "exec_event u e m =
     (if is_device_call (fst e) \<and> snd e \<noteq> cudaSuccess then Inr m else exec_call u (fst e) m)"

fun exec_events :: "(call \<Rightarrow> nat \<Rightarrow> 'a) \<Rightarrow> event list \<Rightarrow> 'a::plus memory \<Rightarrow> fault + 'a memory" where
  "exec_events u [] m = Inr m"
| "exec_events u (e # es) m =
     (case exec_event u e m of Inl f \<Rightarrow> Inl f | Inr m' \<Rightarrow> exec_events u es m')"

text \<open>Every device operation among the events succeeded.\<close>

definition succeeded :: "event list \<Rightarrow> bool" where
  "succeeded evs = list_all (\<lambda>e. is_device_call (fst e) \<longrightarrow> snd e = cudaSuccess) evs"

text \<open>
  The stream work among the events, the events of one stream, the orders in which the
  stream work can execute, and the events before any stream work: the notions of
  \<open>stream_work\<close>, \<open>on_stream\<close>, \<open>stream_order\<close> and \<open>host_setup\<close>, with each call keeping
  its status.
\<close>

definition stream_events :: "event list \<Rightarrow> event list" where
  "stream_events evs = filter (\<lambda>e. stream_of (fst e) \<noteq> None) evs"

definition events_on :: "int \<Rightarrow> event list \<Rightarrow> event list" where
  "events_on s evs = filter (\<lambda>e. stream_of (fst e) = Some s) evs"

definition respects_streams :: "event list \<Rightarrow> event list \<Rightarrow> bool" where
  "respects_streams issued sched =
     (list_all (\<lambda>e. stream_of (fst e) \<noteq> None) sched \<and>
      list_all (\<lambda>e. case stream_of (fst e) of
                        None \<Rightarrow> True
                      | Some s \<Rightarrow> events_on s sched = events_on s issued) (issued @ sched))"

definition setup_events :: "event list \<Rightarrow> event list" where
  "setup_events evs = takeWhile (\<lambda>e. stream_of (fst e) = None \<and> \<not> is_wbSolution (fst e)) evs"

subsection \<open>The segment lengths of a sweep\<close>

text \<open>
  The lengths of the calls of one kind, in issue order: the copies from a host array,
  the launches, the copies to a host array.
\<close>

fun is_copy_from :: "hostArray \<Rightarrow> call \<Rightarrow> bool" where
  "is_copy_from h (cudaMemcpyAsync dst (Host h' off) n k s) = (h' = h)"
| "is_copy_from h c = False"

fun is_copy_to :: "hostArray \<Rightarrow> call \<Rightarrow> bool" where
  "is_copy_to h (cudaMemcpyAsync (Host h' off) src n k s) = (h' = h)"
| "is_copy_to h c = False"

fun is_launch :: "call \<Rightarrow> bool" where
  "is_launch (vecAdd_launch g bd s b1 b2 b3 len) = True"
| "is_launch c = False"

definition sizes :: "(call \<Rightarrow> bool) \<Rightarrow> call list \<Rightarrow> int list" where
  "sizes P cs = List.map_filter (\<lambda>c. if P c then len_of c else None) cs"

subsection \<open>Notions used to state and prove the properties\<close>

text \<open>The global index a worker computes from its block and thread index.\<close>

definition thread_index :: "nat \<Rightarrow> nat \<times> nat \<Rightarrow> nat" where
  "thread_index bd bt = fst bt * bd + snd bt"

text \<open>
  The four calls the scheduler queues on stream \<open>s\<close> for chunk \<open>i\<close>, in issue order: the
  two copies in (lines 109-118), the launch (lines 125-128) and the copy out (lines 134-138).
\<close>

definition segment_calls :: "int \<Rightarrow> int \<Rightarrow> int \<Rightarrow> call list" where
  "segment_calls n i s =
     [cudaMemcpyAsync (Device (deviceInput1 s)) (Host hostInput1 (i + s * segmentSize))
        (copySize_in n i s) cudaMemcpyHostToDevice s,
      cudaMemcpyAsync (Device (deviceInput2 s)) (Host hostInput2 (i + s * segmentSize))
        (copySize_in n i s) cudaMemcpyHostToDevice s,
      vecAdd_launch ((segmentSize - 1) div BLOCK_SIZE + 1) BLOCK_SIZE s
        (deviceInput1 s) (deviceInput2 s) (deviceOutput s) (copySize_launch n i s),
      cudaMemcpyAsync (Host hostOutput (i + s * segmentSize)) (Device (deviceOutput s))
        (copySize_out n i s) cudaMemcpyDeviceToHost s]"

text \<open>The stream whose segments hold element \<open>k\<close> of the vectors.\<close>

definition owner :: "nat \<Rightarrow> int" where
  "owner k = (int k div segmentSize) mod N_STREAMS"

text \<open>
  A memory in which the scheduler loop can run: the inputs in place, the output vector
  allocated, every stream created and every device buffer allocated with \<open>segmentSize\<close>
  elements.
\<close>

definition ready :: "int \<Rightarrow> 'a list \<Rightarrow> 'a list \<Rightarrow> 'a memory \<Rightarrow> bool" where
  "ready n in1 in2 m \<longleftrightarrow>
     host m hostInput1 = in1 \<and> host m hostInput2 = in2 \<and>
     length in1 = nat n \<and> length in2 = nat n \<and>
     length (host m hostOutput) = nat n \<and>
     (\<forall>s. 0 \<le> s \<and> s < N_STREAMS \<longrightarrow>
        s \<in> streams m \<and>
        length (contents (device m (deviceInput1 s))) = nat segmentSize \<and>
        length (contents (device m (deviceInput2 s))) = nat segmentSize \<and>
        length (contents (device m (deviceOutput s))) = nat segmentSize)"

text \<open>The memory after each of the four calls of a segment, written out.\<close>

definition after_in1 :: "int \<Rightarrow> int \<Rightarrow> int \<Rightarrow> 'a memory \<Rightarrow> 'a memory" where
  "after_in1 n i s m = m\<lparr>device := (device m)(deviceInput1 s \<mapsto>
       copy_elems (contents (device m (deviceInput1 s))) 0 (host m hostInput1)
         (nat (i + s * segmentSize)) (nat (copySize_in n i s)))\<rparr>"

definition after_in2 :: "int \<Rightarrow> int \<Rightarrow> int \<Rightarrow> 'a memory \<Rightarrow> 'a memory" where
  "after_in2 n i s m = m\<lparr>device := (device m)(deviceInput2 s \<mapsto>
       copy_elems (contents (device m (deviceInput2 s))) 0 (host m hostInput2)
         (nat (i + s * segmentSize)) (nat (copySize_in n i s)))\<rparr>"

definition after_launch :: "int \<Rightarrow> int \<Rightarrow> int \<Rightarrow> 'a::plus memory \<Rightarrow> 'a memory" where
  "after_launch n i s m = m\<lparr>device := (device m)(deviceOutput s \<mapsto>
       map (\<lambda>k. if int k < copySize_in n i s
                 then contents (device m (deviceInput1 s)) ! k + contents (device m (deviceInput2 s)) ! k
                 else contents (device m (deviceOutput s)) ! k) [0..<128])\<rparr>"

definition after_out :: "int \<Rightarrow> int \<Rightarrow> int \<Rightarrow> 'a memory \<Rightarrow> 'a memory" where
  "after_out n i s m = m\<lparr>host := (host m)(hostOutput :=
       copy_elems (host m hostOutput) (nat (i + s * segmentSize))
         (contents (device m (deviceOutput s))) 0 (nat (copySize_in n i s)))\<rparr>"

text \<open>
  Two memories agree on stream \<open>s\<close> when its three buffers and the elements of the output
  vector it owns are the same in both.
\<close>

definition agree :: "int \<Rightarrow> int \<Rightarrow> 'a memory \<Rightarrow> 'a memory \<Rightarrow> bool" where
  "agree n s m m' \<longleftrightarrow>
     device m (deviceInput1 s) = device m' (deviceInput1 s) \<and>
     device m (deviceInput2 s) = device m' (deviceInput2 s) \<and>
     device m (deviceOutput s) = device m' (deviceOutput s) \<and>
     (\<forall>k<nat n. owner k = s \<longrightarrow> host m hostOutput ! k = host m' hostOutput ! k)"

text \<open>A call of some segment of a chunk that the scheduler loop can reach.\<close>

definition loop_call :: "int \<Rightarrow> call \<Rightarrow> bool" where
  "loop_call n c \<longleftrightarrow>
     (\<exists>i t. 0 \<le> i \<and> i mod 512 = 0 \<and> 0 \<le> t \<and> t < N_STREAMS \<and> c \<in> set (segment_calls n i t))"

text \<open>The twelve device buffers, in allocation order.\<close>

definition buffer_pool :: "devArray list" where
  "buffer_pool = concat (map (\<lambda>s. [deviceInput1 s, deviceInput2 s, deviceOutput s]) [0, 1, 2, 3])"

text \<open>
  Platforms for concrete runs: one on which every call succeeds, and one on which
  exactly the \<open>k\<close>-th issued call fails with a given error.
\<close>

definition ok_platform :: platform where
  "ok_platform = \<lparr>result = (\<lambda>k. cudaSuccess),
                   cudaGetErrorString = (\<lambda>e. ''out of memory''),
                   file_name = ''Lab7.c''\<rparr>"

definition failing_at :: "nat \<Rightarrow> cudaError \<Rightarrow> platform" where
  "failing_at k e = \<lparr>result = (\<lambda>j. if j = k then e else cudaSuccess),
                     cudaGetErrorString = (\<lambda>e. ''out of memory''),
                     file_name = ''Lab7.c''\<rparr>"

text \<open>Recognisers for kinds of calls, used to count allocations and releases.\<close>

fun is_cudaMalloc :: "call \<Rightarrow> bool" where
  "is_cudaMalloc (cudaMalloc b n) = True"
| "is_cudaMalloc c = False"

fun is_cudaFree :: "call \<Rightarrow> bool" where
  "is_cudaFree (cudaFree b) = True"
| "is_cudaFree c = False"

text \<open>
  Stream creation, device allocation, asynchronous copy and device release; a step
  respects them when it does not issue a call of one of these kinds without passing its
  result to \<open>check\<close>.
\<close>

fun is_checked_kind :: "call \<Rightarrow> bool" where
  "is_checked_kind (cudaStreamCreate s) = True"
| "is_checked_kind (cudaMalloc b n) = True"
| "is_checked_kind (cudaMemcpyAsync dst src n k s) = True"
| "is_checked_kind (cudaFree b) = True"
| "is_checked_kind c = False"

fun checked_where_due :: "step \<Rightarrow> bool" where
  "checked_where_due (Unchecked c) = (\<not> is_checked_kind c)"
| "checked_where_due st = True"

text \<open>
  The \<open>k\<close>-th step lets the run go on: a checked call that succeeds, or a call that is
  not checked.
\<close>

fun passes :: "platform \<Rightarrow> nat \<Rightarrow> step \<Rightarrow> bool" where
  "passes p k (Checked c l) = (result p k = cudaSuccess)"
| "passes p k (Unchecked c) = True"
| "passes p k SignedOverflow = False"

section \<open>Lemmas\<close>

declare for_streams.simps [simp del]

declare scheduler_loop.simps [simp del]

lemma for_streams_unroll:
  "for_streams 0 body = body 0 @ body 1 @ body 2 @ body 3"
  by (simp add: for_streams.simps N_STREAMS_def)

lemma calls_simps [simp]:
  "calls [] = []"
  "calls (Checked c l # xs) = c # calls xs"
  "calls (Unchecked c # xs) = c # calls xs"
  "calls (SignedOverflow # xs) = calls xs"
  by (simp_all add: calls_def map_filter_simps)

lemma calls_append [simp]: "calls (xs @ ys) = calls xs @ calls ys"
proof (induction xs)
  case Nil
  then show ?case by simp
next
  case (Cons st xs)
  then show ?case by (cases st) simp_all
qed

lemma copySize_eq:
  "copySize_in n i s = max (min segmentSize (n - i - s * segmentSize)) 0"
  "copySize_launch n i s = max (min segmentSize (n - i - s * segmentSize)) 0"
  "copySize_out n i s = max (min segmentSize (n - i - s * segmentSize)) 0"
  by (simp_all add: copySize_in_def copySize_launch_def copySize_out_def
      min_macro_def max_macro_def min_def max_def)

lemma copySize_in_range:
  assumes "0 \<le> i" "i < inputLength" "inputLength \<le> INT_MAX" "0 \<le> s" "s < N_STREAMS"
  shows "0 \<le> s * segmentSize \<and> s * segmentSize \<le> INT_MAX \<and>
         0 \<le> inputLength - i \<and> inputLength - i \<le> INT_MAX \<and>
         - INT_MAX - 1 \<le> inputLength - i - s * segmentSize \<and>
         inputLength - i - s * segmentSize \<le> INT_MAX \<and>
         segmentSize * N_STREAMS \<le> INT_MAX"
  using assms by (simp add: segmentSize_def N_STREAMS_def INT_MAX_def)

lemma chunk_sum:
  "i < n \<Longrightarrow> copySize_launch n i 0 + copySize_launch n i 1 + copySize_launch n i 2 + copySize_launch n i 3
     = min (segmentSize * N_STREAMS) (n - i)"
  unfolding copySize_launch_def min_macro_def max_macro_def segmentSize_def N_STREAMS_def
  by (simp split: if_splits)

lemma scheduler_loop_done: "\<not> i < n \<Longrightarrow> scheduler_loop n i = []"
  by (simp add: scheduler_loop.simps[of n i])

lemma scheduler_loop_overflow:
  "i < n \<Longrightarrow> INT_MAX < i + segmentSize * N_STREAMS \<Longrightarrow>
   scheduler_loop n i = chunk_steps n i @ [SignedOverflow]"
  by (simp add: scheduler_loop.simps[of n i])

lemma scheduler_loop_next:
  "i < n \<Longrightarrow> \<not> INT_MAX < i + segmentSize * N_STREAMS \<Longrightarrow>
   scheduler_loop n i = chunk_steps n i @ scheduler_loop n (i + segmentSize * N_STREAMS)"
  by (simp add: scheduler_loop.simps[of n i])

lemma no_overflow_small:
  "n \<le> INT_MAX - 511 \<Longrightarrow> SignedOverflow \<notin> set (scheduler_loop n i)"
proof (induction n i rule: scheduler_loop.induct)
  case (1 n i)
  show ?case
  proof (cases "i < n")
    case False
    then show ?thesis by (simp add: scheduler_loop_done)
  next
    case True
    then have nov: "\<not> INT_MAX < i + segmentSize * N_STREAMS"
      using "1.prems" by (simp add: segmentSize_def N_STREAMS_def)
    have "SignedOverflow \<notin> set (chunk_steps n i)"
      by (simp add: chunk_steps_def copy_in_def compute_def copy_out_def for_streams_unroll)
    then show ?thesis
      using "1.IH"[OF True nov "1.prems"] by (simp add: scheduler_loop_next[OF True nov])
  qed
qed

lemma overflow_large:
  "INT_MAX - 511 < n \<Longrightarrow> 0 \<le> i \<Longrightarrow> i mod 512 = 0 \<Longrightarrow> i \<le> INT_MAX - 511 \<Longrightarrow>
   \<exists>pre. scheduler_loop n i = pre @ [SignedOverflow] \<and> SignedOverflow \<notin> set pre"
proof (induction n i rule: scheduler_loop.induct)
  case (1 n i)
  have lt: "i < n" using "1.prems" by simp
  have chunk: "SignedOverflow \<notin> set (chunk_steps n i)"
    by (simp add: chunk_steps_def copy_in_def compute_def copy_out_def for_streams_unroll)
  show ?case
  proof (cases "INT_MAX < i + segmentSize * N_STREAMS")
    case True
    show ?thesis using chunk by (simp add: scheduler_loop_overflow[OF lt True])
  next
    case False
    have a: "0 \<le> i + segmentSize * N_STREAMS" "(i + segmentSize * N_STREAMS) mod 512 = 0"
      using "1.prems" by (simp_all add: segmentSize_def N_STREAMS_def)
    have b: "i + segmentSize * N_STREAMS \<le> INT_MAX - 511"
    proof -
      have "i + 512 \<le> 2147483647" using False by (simp add: segmentSize_def N_STREAMS_def INT_MAX_def)
      moreover have "(i + 512) mod 512 = 0" using "1.prems"(3) by simp
      ultimately have "i + 512 = 512 * ((i + 512) div 512)"
        using mult_div_mod_eq[of 512 "i + 512"] by simp
      moreover define q where "q = (i + 512) div 512"
      ultimately have "i + 512 = 512 * q" "512 * q \<le> 2147483647"
        using \<open>i + 512 \<le> 2147483647\<close> by simp_all
      then have "q < 4194304" by linarith
      then have "512 * q \<le> 2147483136" by linarith
      then have "i + 512 \<le> 2147483136" using \<open>i + 512 = 512 * q\<close> by simp
      then show ?thesis by (simp add: segmentSize_def N_STREAMS_def INT_MAX_def)
    qed
    from "1.IH"[OF lt False "1.prems"(1) a b]
    obtain pre where "scheduler_loop n (i + segmentSize * N_STREAMS) = pre @ [SignedOverflow]"
      "SignedOverflow \<notin> set pre" by blast
    then show ?thesis using chunk
      by (intro exI[of _ "chunk_steps n i @ pre"]) (simp add: scheduler_loop_next[OF lt False])
  qed
qed

lemma run_ok:
  "\<forall>k. result p k = cudaSuccess \<Longrightarrow> SignedOverflow \<notin> set steps \<Longrightarrow>
   run p steps tr = (None, tr @ calls steps)"
  by (induction p steps tr rule: run.induct) (simp_all add: check_def)

lemma run_append:
  "run p (xs @ ys) tr =
     (case run p xs tr of (None, tr') \<Rightarrow> run p ys tr' | (Some e, tr') \<Rightarrow> (Some e, tr'))"
  by (induction p xs tr rule: run.induct) (simp_all split: option.splits)

lemma run_prefix:
  "\<exists>k\<le>length steps. snd (run p steps tr) = tr @ calls (take k steps)"
proof (induction p steps tr rule: run.induct)
  case (1 p tr)
  then show ?case by simp
next
  case (2 p c line rest tr)
  show ?case
  proof (cases "check p (result p (length tr)) line")
    case None
    with 2 obtain k where "k \<le> length rest" "snd (run p rest (tr @ [c])) = (tr @ [c]) @ calls (take k rest)"
      by blast
    then show ?thesis using None by (intro exI[of _ "Suc k"]) simp
  next
    case (Some e)
    then show ?thesis by (intro exI[of _ "Suc 0"]) simp
  qed
next
  case (3 p c rest tr)
  then obtain k where "k \<le> length rest" "snd (run p rest (tr @ [c])) = (tr @ [c]) @ calls (take k rest)"
    by blast
  then show ?case by (intro exI[of _ "Suc k"]) simp
next
  case (4 p rest tr)
  then show ?case by (intro exI[of _ 0]) simp
qed

lemma run_None:
  "run p steps tr = (None, tr') \<Longrightarrow> tr' = tr @ calls steps \<and> SignedOverflow \<notin> set steps"
  by (induction p steps tr rule: run.induct) (auto split: option.splits)

lemma run_threads_effect:
  assumes "\<forall>bt\<in>set ts. int (thread_index bd bt) < len \<longrightarrow>
             thread_index bd bt < length in1 \<and> thread_index bd bt < length in2 \<and>
             thread_index bd bt < length out"
  shows "\<exists>out'. run_threads in1 in2 len bd ts out = Inr out' \<and> length out' = length out \<and>
           (\<forall>k<length out. out' ! k =
              (if int k < len \<and> k \<in> thread_index bd ` set ts then in1 ! k + in2 ! k else out ! k))"
  using assms
proof (induction ts arbitrary: out)
  case Nil
  then show ?case by simp
next
  case (Cons bt ts)
  obtain b t where bt: "bt = (b, t)" by (cases bt)
  define i where "i = b * bd + t"
  define out1 where "out1 = (if int i < len then out[i := in1 ! i + in2 ! i] else out)"
  have step: "vecAdd in1 in2 out len b bd t = Inr out1"
  proof -
    have h: "int i < len \<longrightarrow> i < length in1 \<and> i < length in2 \<and> i < length out"
      using Cons.prems by (simp add: bt thread_index_def i_def)
    show ?thesis
      unfolding vecAdd_def Let_def i_def[symmetric] out1_def using h by simp
  qed
  have len1: "length out1 = length out" by (simp add: out1_def)
  have "\<forall>bt\<in>set ts. int (thread_index bd bt) < len \<longrightarrow>
             thread_index bd bt < length in1 \<and> thread_index bd bt < length in2 \<and>
             thread_index bd bt < length out1"
    using Cons.prems len1 by simp
  from Cons.IH[OF this] obtain out' where
    r: "run_threads in1 in2 len bd ts out1 = Inr out'" and l: "length out' = length out1" and
    v: "\<forall>k<length out1. out' ! k =
              (if int k < len \<and> k \<in> thread_index bd ` set ts then in1 ! k + in2 ! k else out1 ! k)"
    by blast
  have "\<forall>k<length out. out' ! k =
      (if int k < len \<and> k \<in> thread_index bd ` set (bt # ts) then in1 ! k + in2 ! k else out ! k)"
  proof (intro allI impI)
    fix k assume k: "k < length out"
    show "out' ! k = (if int k < len \<and> k \<in> thread_index bd ` set (bt # ts) then in1 ! k + in2 ! k else out ! k)"
    proof (cases "int k < len \<and> k \<in> thread_index bd ` set ts")
      case True
      then show ?thesis using v k len1 by simp
    next
      case False
      then have "out' ! k = out1 ! k" using v k len1 by auto
      also have "out1 ! k = (if int k < len \<and> k = i then in1 ! k + in2 ! k else out ! k)"
        using k by (auto simp: out1_def nth_list_update)
      finally show ?thesis using False by (auto simp: bt thread_index_def i_def)
    qed
  qed
  then show ?case using r l len1 step by (simp add: bt)
qed

lemma thread_index_threads:
  "0 \<le> g \<Longrightarrow> 0 \<le> bd \<Longrightarrow> thread_index (nat bd) ` set (threads g bd) = {0..<nat g * nat bd}"
proof -
  have "thread_index B ` ({0..<G} \<times> {0..<B}) = {0..<G * B}" for G B :: nat
  proof (intro equalityI subsetI)
    fix k assume "k \<in> thread_index B ` ({0..<G} \<times> {0..<B})"
    then obtain b t where k: "k = b * B + t" "b < G" "t < B"
      by (auto simp: thread_index_def)
    then have "b * B + t < Suc b * B" by simp
    also have "\<dots> \<le> G * B" using k(2) by (intro mult_le_mono1) simp
    finally show "k \<in> {0..<G * B}" using k(1) by simp
  next
    fix k assume "k \<in> {0..<G * B}"
    then have k: "k < G * B" by simp
    then have B: "0 < B" by (cases B) simp_all
    have "k div B < G" using k B by (simp add: less_mult_imp_div_less)
    moreover have "k mod B < B" using B by simp
    moreover have "k = thread_index B (k div B, k mod B)" by (simp add: thread_index_def)
    ultimately show "k \<in> thread_index B ` ({0..<G} \<times> {0..<B})" by (metis SigmaI atLeastLessThan_iff image_eqI le0)
  qed
  then show ?thesis by (simp add: threads_def)
qed

lemma launch_effect:
  assumes "0 \<le> g" "0 \<le> bd" "len \<le> int (length in1)" "len \<le> int (length in2)" "len \<le> int (length out)"
    "length out \<le> nat g * nat bd"
  shows "run_threads in1 in2 len (nat bd) (threads g bd) out =
           Inr (map (\<lambda>k. if int k < len then in1 ! k + in2 ! k else out ! k) [0..<length out])"
proof -
  have "\<forall>bt\<in>set (threads g bd). int (thread_index (nat bd) bt) < len \<longrightarrow>
             thread_index (nat bd) bt < length in1 \<and> thread_index (nat bd) bt < length in2 \<and>
             thread_index (nat bd) bt < length out"
    using assms(3-5) by auto
  from run_threads_effect[OF this] obtain out' where
    r: "run_threads in1 in2 len (nat bd) (threads g bd) out = Inr out'" and l: "length out' = length out" and
    v: "\<forall>k<length out. out' ! k =
              (if int k < len \<and> k \<in> thread_index (nat bd) ` set (threads g bd) then in1 ! k + in2 ! k else out ! k)"
    by blast
  have "out' = map (\<lambda>k. if int k < len then in1 ! k + in2 ! k else out ! k) [0..<length out]"
  proof (rule nth_equalityI)
    show "length out' = length (map (\<lambda>k. if int k < len then in1 ! k + in2 ! k else out ! k) [0..<length out])"
      using l by simp
  next
    fix k assume "k < length out'"
    then have k: "k < length out" using l by simp
    then have "k \<in> thread_index (nat bd) ` set (threads g bd)"
      using assms(6) by (simp add: thread_index_threads[OF assms(1,2)])
    then show "out' ! k = map (\<lambda>k. if int k < len then in1 ! k + in2 ! k else out ! k) [0..<length out] ! k"
      using v k by simp
  qed
  then show ?thesis using r by simp
qed

lemma copy_elems_length [simp]: "length (copy_elems dst d src s n) = length dst"
  by (simp add: copy_elems_def)

lemma copy_elems_nth:
  "k < length dst \<Longrightarrow>
   copy_elems dst d src s n ! k = (if d \<le> k \<and> k < d + n then src ! (s + (k - d)) else dst ! k)"
  by (simp add: copy_elems_def)

lemma copy_elems_zero [simp]: "copy_elems dst d src s 0 = dst"
  by (rule nth_equalityI) (auto simp: copy_elems_nth)

lemma stream_cases: "0 \<le> s \<Longrightarrow> s < N_STREAMS \<Longrightarrow> s = 0 \<or> s = 1 \<or> s = 2 \<or> s = (3::int)"
  by (simp add: N_STREAMS_def) arith

lemma on_stream_chunk:
  "0 \<le> s \<Longrightarrow> s < N_STREAMS \<Longrightarrow> on_stream s (calls (chunk_steps n i)) = segment_calls n i s"
  using stream_cases[of s]
  by (auto simp: on_stream_def chunk_steps_def copy_in_def compute_def copy_out_def
      for_streams_unroll segment_calls_def)

lemma stream_of_chunk:
  "c \<in> set (calls (chunk_steps n i)) \<Longrightarrow>
   \<exists>s. 0 \<le> s \<and> s < N_STREAMS \<and> c \<in> set (segment_calls n i s)"
  by (auto simp: chunk_steps_def copy_in_def compute_def copy_out_def
      for_streams_unroll segment_calls_def N_STREAMS_def)

lemma contents_Some: "length (contents x) = nat segmentSize \<Longrightarrow> x = Some (contents x)"
  by (cases x) (simp_all add: segmentSize_def)

lemma ready_dev:
  assumes "ready n in1 in2 m" "0 \<le> s" "s < N_STREAMS"
  shows "s \<in> streams m"
    "device m (deviceInput1 s) = Some (contents (device m (deviceInput1 s)))"
    "device m (deviceInput2 s) = Some (contents (device m (deviceInput2 s)))"
    "device m (deviceOutput s) = Some (contents (device m (deviceOutput s)))"
    "length (contents (device m (deviceInput1 s))) = 128"
    "length (contents (device m (deviceInput2 s))) = 128"
    "length (contents (device m (deviceOutput s))) = 128"
  using assms contents_Some unfolding ready_def by (auto simp: segmentSize_def)

lemma copySize_bounds:
  "0 \<le> copySize_in n i s" "copySize_in n i s \<le> 128"
  "0 < copySize_in n i s \<Longrightarrow> i + s * segmentSize + copySize_in n i s \<le> n"
  "copySize_launch n i s = copySize_in n i s" "copySize_out n i s = copySize_in n i s"
  by (simp_all add: copySize_eq segmentSize_def)

lemma ready_bufs:
  assumes "ready n in1 in2 m" "0 \<le> s" "s < N_STREAMS"
  obtains b1 b2 b3 where
    "device m (deviceInput1 s) = Some b1" "device m (deviceInput2 s) = Some b2"
    "device m (deviceOutput s) = Some b3" "length b1 = 128" "length b2 = 128" "length b3 = 128"
    "s \<in> streams m"
  using ready_dev[OF assms] by (metis contents.simps(2))

lemma ready_host:
  assumes "ready n in1 in2 m"
  shows "host m hostInput1 = in1" "host m hostInput2 = in2" "length in1 = nat n"
    "length in2 = nat n" "length (host m hostOutput) = nat n"
  using assms by (simp_all add: ready_def)

lemma copy_range:
  assumes "0 \<le> s" "0 \<le> i" "0 < copySize_in n i s"
  shows "0 \<le> i + s * segmentSize" "nat (i + s * segmentSize) + nat (copySize_in n i s) \<le> nat n"
    "nat (copySize_in n i s) \<le> 128"
proof -
  show "0 \<le> i + s * segmentSize" using assms(1,2) by (simp add: segmentSize_def)
  show "nat (i + s * segmentSize) + nat (copySize_in n i s) \<le> nat n"
    using copySize_bounds(3)[OF assms(3)] assms unfolding segmentSize_def by arith
  show "nat (copySize_in n i s) \<le> 128" using copySize_bounds(2)[of n i s] by simp
qed

lemma exec_in1:
  assumes "ready n in1 in2 m" "0 \<le> s" "s < N_STREAMS" "0 \<le> i"
  shows "exec_call u (segment_calls n i s ! 0) m = Inr (after_in1 n i s m)"
proof -
  from ready_bufs[OF assms(1-3)] obtain b1 b2 b3 where
    d: "device m (deviceInput1 s) = Some b1" "length b1 = 128" "s \<in> streams m" by metis
  note h = ready_host[OF assms(1)]
  show ?thesis
  proof (cases "copySize_in n i s = 0")
    case True
    have "after_in1 n i s m = m"
      using d(1) by (simp add: after_in1_def True fun_upd_idem)
    then show ?thesis using d(3) True by (simp add: segment_calls_def)
  next
    case False
    then have pos: "0 < copySize_in n i s" using copySize_bounds(1)[of n i s] by simp
    show ?thesis using copy_range[OF assms(2,4) pos] d h False pos
      by (simp add: segment_calls_def after_in1_def)
  qed
qed

lemma exec_in2:
  assumes "ready n in1 in2 m" "0 \<le> s" "s < N_STREAMS" "0 \<le> i"
  shows "exec_call u (segment_calls n i s ! 1) m = Inr (after_in2 n i s m)"
proof -
  from ready_bufs[OF assms(1-3)] obtain b1 b2 b3 where
    d: "device m (deviceInput2 s) = Some b2" "length b2 = 128" "s \<in> streams m" by metis
  note h = ready_host[OF assms(1)]
  show ?thesis
  proof (cases "copySize_in n i s = 0")
    case True
    have "after_in2 n i s m = m"
      using d(1) by (simp add: after_in2_def True fun_upd_idem)
    then show ?thesis using d(3) True by (simp add: segment_calls_def)
  next
    case False
    then have pos: "0 < copySize_in n i s" using copySize_bounds(1)[of n i s] by simp
    show ?thesis using copy_range[OF assms(2,4) pos] d h False pos
      by (simp add: segment_calls_def after_in2_def)
  qed
qed

lemma exec_out:
  assumes "ready n in1 in2 m" "0 \<le> s" "s < N_STREAMS" "0 \<le> i"
  shows "exec_call u (segment_calls n i s ! 3) m = Inr (after_out n i s m)"
proof -
  from ready_bufs[OF assms(1-3)] obtain b1 b2 b3 where
    d: "device m (deviceOutput s) = Some b3" "length b3 = 128" "s \<in> streams m" by metis
  note h = ready_host[OF assms(1)]
  show ?thesis
  proof (cases "copySize_in n i s = 0")
    case True
    have "after_out n i s m = m"
      by (simp add: after_out_def True)
    then show ?thesis using d(3) True by (simp add: segment_calls_def copySize_bounds)
  next
    case False
    then have pos: "0 < copySize_in n i s" using copySize_bounds(1)[of n i s] by simp
    show ?thesis using copy_range[OF assms(2,4) pos] d h False pos
      by (simp add: segment_calls_def after_out_def copySize_bounds)
  qed
qed

lemma exec_launch:
  assumes "ready n in1 in2 m" "0 \<le> s" "s < N_STREAMS"
  shows "exec_call u (segment_calls n i s ! 2) m = Inr (after_launch n i s m)"
proof -
  from ready_bufs[OF assms(1-3)] obtain b1 b2 b3 where
    d: "device m (deviceInput1 s) = Some b1" "device m (deviceInput2 s) = Some b2"
    "device m (deviceOutput s) = Some b3" "length b1 = 128" "length b2 = 128" "length b3 = 128"
    "s \<in> streams m" by metis
  have g: "(segmentSize - 1) div BLOCK_SIZE + 1 = 1"
    by (simp add: segmentSize_def BLOCK_SIZE_def)
  have "run_threads b1 b2 (copySize_in n i s) (nat BLOCK_SIZE) (threads 1 BLOCK_SIZE) b3 =
          Inr (map (\<lambda>k. if int k < copySize_in n i s then b1 ! k + b2 ! k else b3 ! k) [0..<length b3])"
    using d(4-6) copySize_bounds(2)[of n i s]
    by (intro launch_effect) (simp_all add: BLOCK_SIZE_def)
  then show ?thesis using d
    by (simp add: segment_calls_def after_launch_def g copySize_bounds cong: if_cong)
qed

lemma after_in1_simps [simp]:
  "host (after_in1 n i s m) = host m" "streams (after_in1 n i s m) = streams m"
  "device (after_in1 n i s m) b = (if b = deviceInput1 s
     then Some (copy_elems (contents (device m (deviceInput1 s))) 0 (host m hostInput1)
                 (nat (i + s * segmentSize)) (nat (copySize_in n i s)))
     else device m b)"
  by (simp_all add: after_in1_def)

lemma after_in2_simps [simp]:
  "host (after_in2 n i s m) = host m" "streams (after_in2 n i s m) = streams m"
  "device (after_in2 n i s m) b = (if b = deviceInput2 s
     then Some (copy_elems (contents (device m (deviceInput2 s))) 0 (host m hostInput2)
                 (nat (i + s * segmentSize)) (nat (copySize_in n i s)))
     else device m b)"
  by (simp_all add: after_in2_def)

lemma after_launch_simps [simp]:
  "host (after_launch n i s m) = host m" "streams (after_launch n i s m) = streams m"
  "device (after_launch n i s m) b = (if b = deviceOutput s
     then Some (map (\<lambda>k. if int k < copySize_in n i s
                 then contents (device m (deviceInput1 s)) ! k + contents (device m (deviceInput2 s)) ! k
                 else contents (device m (deviceOutput s)) ! k) [0..<128])
     else device m b)"
  by (simp_all add: after_launch_def)

lemma after_out_simps [simp]:
  "device (after_out n i s m) = device m" "streams (after_out n i s m) = streams m"
  "host (after_out n i s m) h = (if h = hostOutput
     then copy_elems (host m hostOutput) (nat (i + s * segmentSize))
            (contents (device m (deviceOutput s))) 0 (nat (copySize_in n i s))
     else host m h)"
  by (simp_all add: after_out_def)

lemma ready_after:
  assumes "ready n in1 in2 m" "0 \<le> s" "s < N_STREAMS"
  shows "ready n in1 in2 (after_in1 n i s m)" "ready n in1 in2 (after_in2 n i s m)"
    "ready n in1 in2 (after_launch n i s m)" "ready n in1 in2 (after_out n i s m)"
  using assms unfolding ready_def by (simp_all add: segmentSize_def)

lemma agree_refl: "agree n s m m"
  by (simp add: agree_def)

lemma agree_sym: "agree n s m m' \<Longrightarrow> agree n s m' m"
  by (simp add: agree_def)

lemma agree_trans: "agree n s m m' \<Longrightarrow> agree n s m' m'' \<Longrightarrow> agree n s m m''"
  by (simp add: agree_def)

lemma owner_in_segment:
  assumes "0 \<le> i" "i mod 512 = 0" "0 \<le> t" "t < N_STREAMS"
    "i + t * segmentSize \<le> int k" "int k < i + t * segmentSize + 128"
  shows "owner k = t"
proof -
  define q where "q = i div 512"
  have q: "i = 512 * q" using assms(2) mult_div_mod_eq[of 512 i] unfolding q_def by simp
  define r where "r = int k - i - t * 128"
  have r: "0 \<le> r" "r < 128" using assms(5,6) by (simp_all add: r_def segmentSize_def)
  have "int k = 128 * (4 * q + t) + r" by (simp add: r_def q)
  then have "int k div 128 = 4 * q + t" using r by (simp add: div_pos_pos_trivial)
  then show ?thesis using assms(3,4) by (simp add: owner_def segmentSize_def N_STREAMS_def)
qed

lemma segment_of_owner:
  assumes "0 \<le> i" "i mod 512 = 0" "owner k = s" "i \<le> int k" "int k < i + 512"
  shows "i + s * segmentSize \<le> int k" "int k < i + s * segmentSize + 128" "0 \<le> s" "s < N_STREAMS"
proof -
  define q where "q = i div 512"
  have q: "i = 512 * q" using assms(2) mult_div_mod_eq[of 512 i] unfolding q_def by simp
  define d where "d = int k - i"
  have d: "0 \<le> d" "d < 512" using assms(4,5) by (simp_all add: d_def)
  have k: "int k = 128 * (4 * q) + d" by (simp add: d_def q)
  have "int k = 128 * (4 * q + d div 128) + d mod 128" unfolding k by simp
  then have "int k div 128 = 4 * q + d div 128"
    by (rule int_div_pos_eq) simp_all
  then have "owner k = (d div 128) mod 4" by (simp add: owner_def segmentSize_def N_STREAMS_def)
  moreover have "0 \<le> d div 128" "d div 128 < 4" using d by (simp_all add: pos_imp_zdiv_nonneg_iff)
  ultimately have s: "s = d div 128" using assms(3) by simp
  show "0 \<le> s" "s < N_STREAMS" using s d by (simp_all add: N_STREAMS_def)
  have "d = 128 * (d div 128) + d mod 128" by simp
  moreover have "0 \<le> d mod 128" "d mod 128 < 128" by simp_all
  ultimately have "128 * s \<le> d" "d < 128 * s + 128" unfolding s by linarith+
  then show "i + s * segmentSize \<le> int k" "int k < i + s * segmentSize + 128"
    by (simp_all add: d_def segmentSize_def)
qed

lemma segment_calls_nth:
  "c \<in> set (segment_calls n i t) \<Longrightarrow>
   c = segment_calls n i t ! 0 \<or> c = segment_calls n i t ! 1 \<or>
   c = segment_calls n i t ! 2 \<or> c = segment_calls n i t ! 3"
  by (auto simp: segment_calls_def)

lemma stream_of_segment: "c \<in> set (segment_calls n i t) \<Longrightarrow> stream_of c = Some t"
  by (auto simp: segment_calls_def)

lemma agree_other:
  assumes "s \<noteq> t" "0 \<le> i" "i mod 512 = 0" "0 \<le> t" "t < N_STREAMS"
    "length (host m hostOutput) = nat n"
  shows "agree n s m (after_in1 n i t m)" "agree n s m (after_in2 n i t m)"
    "agree n s m (after_launch n i t m)" "agree n s m (after_out n i t m)"
proof -
  show "agree n s m (after_in1 n i t m)" "agree n s m (after_in2 n i t m)"
    "agree n s m (after_launch n i t m)"
    using assms(1) by (simp_all add: agree_def)
  have "copy_elems (host m hostOutput) (nat (i + t * segmentSize))
          (contents (device m (deviceOutput t))) 0 (nat (copySize_in n i t)) ! k
        = host m hostOutput ! k" if k: "k < nat n" "owner k = s" for k
  proof -
    have "\<not> (nat (i + t * segmentSize) \<le> k \<and> k < nat (i + t * segmentSize) + nat (copySize_in n i t))"
    proof
      assume a: "nat (i + t * segmentSize) \<le> k \<and> k < nat (i + t * segmentSize) + nat (copySize_in n i t)"
      have "0 \<le> i + t * segmentSize" using assms(2,4) by (simp add: segmentSize_def)
      then have "i + t * segmentSize \<le> int k" "int k < i + t * segmentSize + 128"
        using a copySize_bounds(1,2)[of n i t] by linarith+
      from owner_in_segment[OF assms(2-5) this] show False using k(2) assms(1) by simp
    qed
    then show ?thesis using k(1) assms(6) by (auto simp: copy_elems_nth)
  qed
  then show "agree n s m (after_out n i t m)" by (simp add: agree_def)
qed

lemma agree_same:
  assumes "agree n s m1 m2" "host m1 hostInput1 = host m2 hostInput1"
    "host m1 hostInput2 = host m2 hostInput2"
    "length (host m1 hostOutput) = nat n" "length (host m2 hostOutput) = nat n"
  shows "agree n s (after_in1 n i s m1) (after_in1 n i s m2)"
    "agree n s (after_in2 n i s m1) (after_in2 n i s m2)"
    "agree n s (after_launch n i s m1) (after_launch n i s m2)"
    "agree n s (after_out n i s m1) (after_out n i s m2)"
proof -
  have d: "device m1 (deviceInput1 s) = device m2 (deviceInput1 s)"
    "device m1 (deviceInput2 s) = device m2 (deviceInput2 s)"
    "device m1 (deviceOutput s) = device m2 (deviceOutput s)"
    and h: "\<And>k. k < nat n \<Longrightarrow> owner k = s \<Longrightarrow> host m1 hostOutput ! k = host m2 hostOutput ! k"
    using assms(1) by (simp_all add: agree_def)
  show "agree n s (after_in1 n i s m1) (after_in1 n i s m2)"
    unfolding agree_def using h by (simp add: d assms(2))
  show "agree n s (after_in2 n i s m1) (after_in2 n i s m2)"
    unfolding agree_def using h by (simp add: d assms(3))
  show "agree n s (after_launch n i s m1) (after_launch n i s m2)"
    unfolding agree_def using h by (simp add: d)
  show "agree n s (after_out n i s m1) (after_out n i s m2)"
    unfolding agree_def using h by (simp add: d copy_elems_nth assms(4,5))
qed

lemma step_other:
  assumes "loop_call n c" "stream_of c \<noteq> Some s" "ready n in1 in2 m"
  shows "\<exists>m'. exec_call u c m = Inr m' \<and> ready n in1 in2 m' \<and> agree n s m m'"
proof -
  from assms(1) obtain i t where it: "0 \<le> i" "i mod 512 = 0" "0 \<le> t" "t < N_STREAMS"
    "c \<in> set (segment_calls n i t)" unfolding loop_call_def by (elim exE conjE)
  have ne: "s \<noteq> t" using stream_of_segment[OF it(5)] assms(2) by auto
  note ag = agree_other[OF ne it(1-4) ready_host(5)[OF assms(3)]]
  note rd = ready_after[OF assms(3) it(3,4)]
  from segment_calls_nth[OF it(5)] show ?thesis
  proof (elim disjE)
    assume "c = segment_calls n i t ! 0"
    then have "exec_call u c m = Inr (after_in1 n i t m)"
      using exec_in1[OF assms(3) it(3,4,1)] by (simp only:)
    then show ?thesis using ag(1) rd(1) by - (rule exI, intro conjI, assumption+)
  next
    assume "c = segment_calls n i t ! 1"
    then have "exec_call u c m = Inr (after_in2 n i t m)"
      using exec_in2[OF assms(3) it(3,4,1)] by (simp only:)
    then show ?thesis using ag(2) rd(2) by - (rule exI, intro conjI, assumption+)
  next
    assume "c = segment_calls n i t ! 2"
    then have "exec_call u c m = Inr (after_launch n i t m)"
      using exec_launch[OF assms(3) it(3,4)] by (simp only:)
    then show ?thesis using ag(3) rd(3) by - (rule exI, intro conjI, assumption+)
  next
    assume "c = segment_calls n i t ! 3"
    then have "exec_call u c m = Inr (after_out n i t m)"
      using exec_out[OF assms(3) it(3,4,1)] by (simp only:)
    then show ?thesis using ag(4) rd(4) by - (rule exI, intro conjI, assumption+)
  qed
qed

lemma step_same:
  assumes "loop_call n c" "stream_of c = Some s" "ready n in1 in2 m1" "ready n in1 in2 m2"
    "agree n s m1 m2"
  shows "\<exists>m1' m2'. exec_call u c m1 = Inr m1' \<and> exec_call u c m2 = Inr m2' \<and>
           ready n in1 in2 m1' \<and> ready n in1 in2 m2' \<and> agree n s m1' m2'"
proof -
  from assms(1) obtain i t where it: "0 \<le> i" "i mod 512 = 0" "0 \<le> t" "t < N_STREAMS"
    "c \<in> set (segment_calls n i t)" unfolding loop_call_def by (elim exE conjE)
  have eq: "t = s" using stream_of_segment[OF it(5)] assms(2) by auto
  note it' = it[unfolded eq]
  note ag = agree_same[OF assms(5) _ _ ready_host(5)[OF assms(3)] ready_host(5)[OF assms(4)]]
  have hi: "host m1 hostInput1 = host m2 hostInput1" "host m1 hostInput2 = host m2 hostInput2"
    using ready_host(1,2)[OF assms(3)] ready_host(1,2)[OF assms(4)] by simp_all
  note ag' = ag[OF hi]
  note rd1 = ready_after[OF assms(3) it'(3,4)]
  note rd2 = ready_after[OF assms(4) it'(3,4)]
  from segment_calls_nth[OF it'(5)] show ?thesis
  proof (elim disjE)
    assume "c = segment_calls n i s ! 0"
    then have "exec_call u c m1 = Inr (after_in1 n i s m1)" "exec_call u c m2 = Inr (after_in1 n i s m2)"
      using exec_in1[OF assms(3) it'(3,4,1)] exec_in1[OF assms(4) it'(3,4,1)] by (simp_all only:)
    then show ?thesis using ag'(1) rd1(1) rd2(1) by - (rule exI, rule exI, intro conjI, assumption+)
  next
    assume "c = segment_calls n i s ! 1"
    then have "exec_call u c m1 = Inr (after_in2 n i s m1)" "exec_call u c m2 = Inr (after_in2 n i s m2)"
      using exec_in2[OF assms(3) it'(3,4,1)] exec_in2[OF assms(4) it'(3,4,1)] by (simp_all only:)
    then show ?thesis using ag'(2) rd1(2) rd2(2) by - (rule exI, rule exI, intro conjI, assumption+)
  next
    assume "c = segment_calls n i s ! 2"
    then have "exec_call u c m1 = Inr (after_launch n i s m1)" "exec_call u c m2 = Inr (after_launch n i s m2)"
      using exec_launch[OF assms(3) it'(3,4)] exec_launch[OF assms(4) it'(3,4)] by (simp_all only:)
    then show ?thesis using ag'(3) rd1(3) rd2(3) by - (rule exI, rule exI, intro conjI, assumption+)
  next
    assume "c = segment_calls n i s ! 3"
    then have "exec_call u c m1 = Inr (after_out n i s m1)" "exec_call u c m2 = Inr (after_out n i s m2)"
      using exec_out[OF assms(3) it'(3,4,1)] exec_out[OF assms(4) it'(3,4,1)] by (simp_all only:)
    then show ?thesis using ag'(4) rd1(4) rd2(4) by - (rule exI, rule exI, intro conjI, assumption+)
  qed
qed

lemma projection:
  assumes "\<forall>c\<in>set sched. loop_call n c" "ready n in1 in2 m1" "ready n in1 in2 m2"
    "agree n s m1 m2"
  shows "\<exists>m1' m2'. exec_calls u sched m1 = Inr m1' \<and>
           exec_calls u (on_stream s sched) m2 = Inr m2' \<and>
           ready n in1 in2 m1' \<and> ready n in1 in2 m2' \<and> agree n s m1' m2'"
  using assms
proof (induction sched arbitrary: m1 m2)
  case Nil
  then show ?case by (simp add: on_stream_def)
next
  case (Cons c sched)
  have lc: "loop_call n c" and rest: "\<forall>c\<in>set sched. loop_call n c" using Cons.prems(1) by simp_all
  show ?case
  proof (cases "stream_of c = Some s")
    case True
    from step_same[OF lc True Cons.prems(2,3,4)] obtain m1' m2' where
      st: "exec_call u c m1 = Inr m1'" "exec_call u c m2 = Inr m2'"
      "ready n in1 in2 m1'" "ready n in1 in2 m2'" "agree n s m1' m2'" by blast
    from Cons.IH[OF rest st(3,4,5)] show ?thesis using st(1,2) True
      by (simp add: on_stream_def)
  next
    case False
    from step_other[OF lc False Cons.prems(2)] obtain m1' where
      st: "exec_call u c m1 = Inr m1'" "ready n in1 in2 m1'" "agree n s m1 m1'" by blast
    have "agree n s m1' m2" using agree_trans[OF agree_sym[OF st(3)] Cons.prems(4)] .
    from Cons.IH[OF rest st(2) Cons.prems(3) this] show ?thesis using st(1) False
      by (simp add: on_stream_def)
  qed
qed

lemma exec_calls_append:
  "exec_calls u (xs @ ys) m =
     (case exec_calls u xs m of Inl f \<Rightarrow> Inl f | Inr m' \<Rightarrow> exec_calls u ys m')"
  by (induction xs arbitrary: m) (simp_all split: sum.splits)

lemma on_stream_append: "on_stream s (xs @ ys) = on_stream s xs @ on_stream s ys"
  by (simp add: on_stream_def)

lemma segment_run:
  assumes "ready n in1 in2 m" "0 \<le> s" "s < N_STREAMS" "0 \<le> i"
  shows "exec_calls u (segment_calls n i s) m =
           Inr (after_out n i s (after_launch n i s (after_in2 n i s (after_in1 n i s m))))"
proof -
  note r1 = ready_after(1)[OF assms(1-3), of i]
  note r2 = ready_after(2)[OF r1 assms(2,3), of i]
  note r3 = ready_after(3)[OF r2 assms(2,3), of i]
  have l: "segment_calls n i s = [segment_calls n i s ! 0, segment_calls n i s ! 1,
      segment_calls n i s ! 2, segment_calls n i s ! 3]"
    by (simp add: segment_calls_def)
  show ?thesis
    by (subst l) (simp only: exec_calls.simps exec_in1[OF assms(1-4)] exec_in2[OF r1 assms(2-4)]
        exec_launch[OF r2 assms(2,3)] exec_out[OF r3 assms(2-4)] sum.case)
qed

lemma segment_result:
  assumes "ready n in1 in2 m" "0 \<le> s" "s < N_STREAMS" "0 \<le> i"
  defines "m4 \<equiv> after_out n i s (after_launch n i s (after_in2 n i s (after_in1 n i s m)))"
  shows "ready n in1 in2 m4"
    "k < nat n \<Longrightarrow> host m4 hostOutput ! k =
       (if i + s * segmentSize \<le> int k \<and> int k < i + s * segmentSize + copySize_in n i s
        then in1 ! k + in2 ! k else host m hostOutput ! k)"
proof -
  note r1 = ready_after(1)[OF assms(1-3), of i]
  note r2 = ready_after(2)[OF r1 assms(2,3), of i]
  note r3 = ready_after(3)[OF r2 assms(2,3), of i]
  show "ready n in1 in2 m4" unfolding m4_def by (rule ready_after(4)[OF r3 assms(2,3)])
  from ready_bufs[OF assms(1-3)] obtain b1 b2 b3 where
    d: "device m (deviceInput1 s) = Some b1" "device m (deviceInput2 s) = Some b2"
    "device m (deviceOutput s) = Some b3" "length b1 = 128" "length b2 = 128" "length b3 = 128"
    by metis
  note h = ready_host[OF assms(1)]
  define off where "off = i + s * segmentSize"
  define L where "L = copySize_in n i s"
  have off: "0 \<le> off" using assms(2,4) by (simp add: off_def segmentSize_def)
  have L: "0 \<le> L" "L \<le> 128" using copySize_bounds(1,2)[of n i s] by (simp_all add: L_def)
  assume k: "k < nat n"
  show "host m4 hostOutput ! k =
       (if i + s * segmentSize \<le> int k \<and> int k < i + s * segmentSize + copySize_in n i s
        then in1 ! k + in2 ! k else host m hostOutput ! k)"
  proof (cases "off \<le> int k \<and> int k < off + L")
    case False
    then have "\<not> (nat off \<le> k \<and> k < nat off + nat L)" using off L by linarith
    then show ?thesis using False k h(5)
      by (auto simp: m4_def copy_elems_nth off_def[symmetric] L_def[symmetric])
  next
    case True
    then have in_rng: "nat off \<le> k \<and> k < nat off + nat L" using off L by linarith
    define j where "j = k - nat off"
    have j: "j < nat L" "int j < L" "j < 128" "nat off + j = k"
      using in_rng L off unfolding j_def by arith+
    have "host m4 hostOutput ! k = contents (device (after_launch n i s (after_in2 n i s (after_in1 n i s m))) (deviceOutput s)) ! j"
      using in_rng k h(5) by (simp add: m4_def copy_elems_nth off_def[symmetric] L_def[symmetric] j_def)
    also have "\<dots> = copy_elems b1 0 in1 (nat off) (nat L) ! j + copy_elems b2 0 in2 (nat off) (nat L) ! j"
      using j d h by (simp add: off_def[symmetric] L_def[symmetric])
    also have "\<dots> = in1 ! k + in2 ! k"
      using j d by (simp add: copy_elems_nth)
    finally show ?thesis using True by (simp add: off_def L_def)
  qed
qed

lemma in_segment:
  assumes "0 \<le> i" "i mod 512 = 0" "owner k = s" "i \<le> int k" "int k < i + 512" "k < nat n"
  shows "i + s * segmentSize \<le> int k \<and> int k < i + s * segmentSize + copySize_in n i s"
  using segment_of_owner(1,2)[OF assms(1-5)] assms(6)
  by (simp add: copySize_eq segmentSize_def)

lemma before_segment:
  assumes "0 \<le> s" "int k < i"
  shows "\<not> (i + s * segmentSize \<le> int k \<and> int k < i + s * segmentSize + copySize_in n i s)"
  using assms by (simp add: segmentSize_def)

lemma calls_overflow [simp]: "calls [SignedOverflow] = []"
  by simp

lemma on_stream_Nil [simp]: "on_stream s [] = []"
  by (simp add: on_stream_def)

lemma stream_range: "(0 \<le> s \<and> s < N_STREAMS) = (s = 0 \<or> s = 1 \<or> s = 2 \<or> s = (3::int))"
  by (auto simp: N_STREAMS_def)

lemma step_arith:
  "0 \<le> i \<Longrightarrow> 0 \<le> i + segmentSize * N_STREAMS"
  "i mod 512 = 0 \<Longrightarrow> (i + segmentSize * N_STREAMS) mod 512 = 0"
  "i + segmentSize * N_STREAMS = i + 512"
  by (simp_all add: segmentSize_def N_STREAMS_def)

lemma stream_run:
  assumes "0 \<le> s" "s < N_STREAMS"
  shows "n \<le> INT_MAX \<Longrightarrow> 0 \<le> i \<Longrightarrow> i mod 512 = 0 \<Longrightarrow> ready n in1 in2 m \<Longrightarrow>
     \<exists>m'. exec_calls u (on_stream s (calls (scheduler_loop n i))) m = Inr m' \<and>
          ready n in1 in2 m' \<and>
          (\<forall>k<nat n. owner k = s \<longrightarrow>
             host m' hostOutput ! k =
               (if i \<le> int k then in1 ! k + in2 ! k else host m hostOutput ! k))"
proof (induction n i arbitrary: m rule: scheduler_loop.induct)
  case (1 n i)
  note nmax = "1.prems"(1) and i = "1.prems"(2,3) and rdy = "1.prems"(4)
  show ?case
  proof (cases "i < n")
    case False
    then have "\<forall>k<nat n. \<not> i \<le> int k" by auto
    then show ?thesis using rdy by (simp add: scheduler_loop_done[OF False])
  next
    case lt: True
    define m4 where "m4 = after_out n i s (after_launch n i s (after_in2 n i s (after_in1 n i s m)))"
    have seg: "exec_calls u (segment_calls n i s) m = Inr m4"
      unfolding m4_def by (rule segment_run[OF rdy assms(1,2) i(1)])
    have r4: "ready n in1 in2 m4"
      unfolding m4_def by (rule segment_result(1)[OF rdy assms(1,2) i(1)])
    have v4: "host m4 hostOutput ! k =
       (if i + s * segmentSize \<le> int k \<and> int k < i + s * segmentSize + copySize_in n i s
        then in1 ! k + in2 ! k else host m hostOutput ! k)" if "k < nat n" for k
      unfolding m4_def by (rule segment_result(2)[OF rdy assms(1,2) i(1) that])
    have v4': "host m4 hostOutput ! k =
       (if i \<le> int k then in1 ! k + in2 ! k else host m hostOutput ! k)"
      if k: "k < nat n" "owner k = s" "int k < i + 512" for k
    proof (cases "i \<le> int k")
      case True
      then show ?thesis using v4[OF k(1)] in_segment[OF i k(2) True k(3) k(1)] by simp
    next
      case False
      then show ?thesis using v4[OF k(1)] before_segment[OF assms(1), of k i n] by simp
    qed
    show ?thesis
    proof (cases "INT_MAX < i + segmentSize * N_STREAMS")
      case True
      have c: "on_stream s (calls (scheduler_loop n i)) = segment_calls n i s"
        by (simp add: scheduler_loop_overflow[OF lt True] on_stream_append
            on_stream_chunk[OF assms(1,2)])
      have "int k < i + 512" if "k < nat n" for k
      proof -
        have "int k < n" using that by simp
        then show ?thesis using True nmax unfolding step_arith(3) by linarith
      qed
      then show ?thesis using seg r4 v4' by (simp add: c)
    next
      case False
      have c: "on_stream s (calls (scheduler_loop n i)) =
          segment_calls n i s @ on_stream s (calls (scheduler_loop n (i + segmentSize * N_STREAMS)))"
        by (simp add: scheduler_loop_next[OF lt False] on_stream_append
            on_stream_chunk[OF assms(1,2)])
      from "1.IH"[OF lt False nmax step_arith(1)[OF i(1)] step_arith(2)[OF i(2)] r4]
      obtain m' where
        e: "exec_calls u (on_stream s (calls (scheduler_loop n (i + segmentSize * N_STREAMS)))) m4 = Inr m'"
        and r: "ready n in1 in2 m'"
        and v: "\<forall>k<nat n. owner k = s \<longrightarrow> host m' hostOutput ! k =
               (if i + segmentSize * N_STREAMS \<le> int k then in1 ! k + in2 ! k else host m4 hostOutput ! k)"
        by (elim exE conjE)
      have "host m' hostOutput ! k =
               (if i \<le> int k then in1 ! k + in2 ! k else host m hostOutput ! k)"
        if k: "k < nat n" "owner k = s" for k
      proof (cases "i + 512 \<le> int k")
        case True
        then show ?thesis using v k by (simp add: step_arith(3))
      next
        case False
        then have "host m' hostOutput ! k = host m4 hostOutput ! k"
          using v k by (simp add: step_arith(3))
        then show ?thesis using v4'[OF k] False by simp
      qed
      then show ?thesis using seg e r by (simp add: c exec_calls_append)
    qed
  qed
qed

lemma loop_calls_all:
  "0 \<le> i \<Longrightarrow> i mod 512 = 0 \<Longrightarrow> c \<in> set (calls (scheduler_loop n i)) \<Longrightarrow> loop_call n c"
proof (induction n i rule: scheduler_loop.induct)
  case (1 n i)
  show ?case
  proof (cases "i < n")
    case False
    then show ?thesis using "1.prems"(3) by (simp add: scheduler_loop_done)
  next
    case lt: True
    have chunk: "loop_call n c" if "c \<in> set (calls (chunk_steps n i))"
      using stream_of_chunk[OF that] "1.prems"(1,2) unfolding loop_call_def by auto
    show ?thesis
    proof (cases "INT_MAX < i + segmentSize * N_STREAMS")
      case True
      then show ?thesis using "1.prems"(3) chunk by (simp add: scheduler_loop_overflow[OF lt True])
    next
      case False
      then show ?thesis
        using "1.prems"(3) chunk "1.IH"[OF lt False step_arith(1)[OF "1.prems"(1)] step_arith(2)[OF "1.prems"(2)]]
        by (auto simp: scheduler_loop_next[OF lt False])
    qed
  qed
qed

lemma setup_ready:
  assumes "length in1 = nat n" "length in2 = nat n"
  shows "\<exists>m. exec_calls u (calls (setup_steps n)) (start in1 in2) = Inr m \<and> ready n in1 in2 m"
proof -
  have "ready n in1 in2 m" if "exec_calls u (calls (setup_steps n)) (start in1 in2) = Inr m" for m
    unfolding ready_def stream_range using that assms
    by (auto simp: setup_steps_def for_streams_unroll start_def segmentSize_def)
  moreover have "\<exists>m. exec_calls u (calls (setup_steps n)) (start in1 in2) = Inr m"
    by (simp add: setup_steps_def for_streams_unroll start_def)
  ultimately show ?thesis by auto
qed

lemma stream_order_on_stream:
  assumes "stream_order issued sched"
  shows "on_stream s sched = on_stream s issued"
proof (cases "\<exists>c\<in>set (issued @ sched). stream_of c = Some s")
  case True
  then obtain c where c: "c \<in> set (issued @ sched)" "stream_of c = Some s" by (elim bexE)
  have "\<forall>c\<in>set (issued @ sched). (case stream_of c of None \<Rightarrow> True
          | Some s \<Rightarrow> on_stream s sched = on_stream s issued)"
    using assms by (simp add: stream_order_def list_all_iff)
  from bspec[OF this c(1)] show ?thesis by (simp add: c(2))
next
  case False
  then have "on_stream s sched = []" "on_stream s issued = []"
    by (auto simp: on_stream_def filter_empty_conv)
  then show ?thesis by simp
qed

lemma stream_order_set:
  assumes "stream_order issued sched" "c \<in> set sched"
  shows "c \<in> set issued"
proof -
  have "stream_of c \<noteq> None" using assms by (auto simp: stream_order_def list_all_iff)
  then obtain s where s: "stream_of c = Some s" by auto
  then have "c \<in> set (on_stream s sched)" using assms(2) by (simp add: on_stream_def)
  then have "c \<in> set (on_stream s issued)" using stream_order_on_stream[OF assms(1)] by simp
  then show ?thesis by (simp add: on_stream_def)
qed

lemma stream_order_refl:
  "list_all (\<lambda>c. stream_of c \<noteq> None) xs \<Longrightarrow> stream_order xs xs"
  by (auto simp: stream_order_def list_all_iff split: option.splits)

lemma owner_range: "0 \<le> owner k" "owner k < N_STREAMS"
  by (simp_all add: owner_def N_STREAMS_def)

lemma pipeline_run:
  assumes "n \<le> INT_MAX" "ready n in1 in2 m0"
    "stream_order (calls (scheduler_loop n 0)) sched"
  shows "\<exists>m. exec_calls u sched m0 = Inr m \<and> ready n in1 in2 m \<and>
           (\<forall>k<nat n. host m hostOutput ! k = in1 ! k + in2 ! k)"
proof -
  have lc: "\<forall>c\<in>set sched. loop_call n c"
    using stream_order_set[OF assms(3)] loop_calls_all[of 0 _ n] by auto
  from projection[OF lc assms(2) assms(2) agree_refl, where s = 0 and u = u]
  obtain m where m: "exec_calls u sched m0 = Inr m" "ready n in1 in2 m"
    by (elim exE conjE)
  have "host m hostOutput ! k = in1 ! k + in2 ! k" if k: "k < nat n" for k
  proof -
    define s where "s = owner k"
    have s: "0 \<le> s" "s < N_STREAMS" using owner_range[of k] by (simp_all add: s_def)
    from projection[OF lc assms(2) assms(2) agree_refl, where s = s and u = u]
    obtain m1 m2 where p: "exec_calls u sched m0 = Inr m1"
      "exec_calls u (on_stream s sched) m0 = Inr m2" "agree n s m1 m2"
      by (elim exE conjE)
    from stream_run[OF s assms(1) _ _ assms(2), where i = 0 and u = u]
    obtain m' where r: "exec_calls u (on_stream s (calls (scheduler_loop n 0))) m0 = Inr m'"
      "\<forall>k<nat n. owner k = s \<longrightarrow> host m' hostOutput ! k =
               (if 0 \<le> int k then in1 ! k + in2 ! k else host m0 hostOutput ! k)"
      by auto
    have "m1 = m" using p(1) m(1) by simp
    moreover have "m2 = m'" using p(2) r(1) stream_order_on_stream[OF assms(3), of s] by simp
    ultimately have "host m hostOutput ! k = host m' hostOutput ! k"
      using p(3) k by (simp add: agree_def s_def)
    then show ?thesis using r(2) k by (simp add: s_def)
  qed
  then show ?thesis using m by auto
qed

lemma pipeline_result:
  assumes "n \<le> INT_MAX" "length in1 = nat n" "length in2 = nat n"
    "stream_order (calls (scheduler_loop n 0)) sched"
  shows "\<exists>m. exec_calls u (calls (setup_steps n) @ sched) (start in1 in2) = Inr m \<and>
           length (host m hostOutput) = nat n \<and>
           (\<forall>k<nat n. host m hostOutput ! k = in1 ! k + in2 ! k)"
proof -
  from setup_ready[OF assms(2,3), where u = u] obtain m0 where
    m0: "exec_calls u (calls (setup_steps n)) (start in1 in2) = Inr m0" "ready n in1 in2 m0"
    by (elim exE conjE)
  from pipeline_run[OF assms(1) m0(2) assms(4), where u = u] obtain m where
    "exec_calls u sched m0 = Inr m" "ready n in1 in2 m"
    "\<forall>k<nat n. host m hostOutput ! k = in1 ! k + in2 ! k"
    by (elim exE conjE)
  then show ?thesis using m0(1) ready_host(5)[of n in1 in2 m]
    by (simp add: exec_calls_append)
qed

lemma stream_of_loop:
  "c \<in> set (calls (scheduler_loop n i)) \<Longrightarrow> stream_of c \<noteq> None"
proof (induction n i rule: scheduler_loop.induct)
  case (1 n i)
  show ?case
  proof (cases "i < n")
    case False
    then show ?thesis using "1.prems" by (simp add: scheduler_loop_done)
  next
    case lt: True
    have chunk: "stream_of c \<noteq> None" if "c \<in> set (calls (chunk_steps n i))"
      using stream_of_chunk[OF that] stream_of_segment by auto
    show ?thesis
    proof (cases "INT_MAX < i + segmentSize * N_STREAMS")
      case True
      then show ?thesis using "1.prems" chunk by (simp add: scheduler_loop_overflow[OF lt True])
    next
      case False
      then show ?thesis
        using "1.prems" chunk "1.IH"[OF lt False]
        by (auto simp: scheduler_loop_next[OF lt False])
    qed
  qed
qed

lemma stream_work_loop: "stream_work (calls (scheduler_loop n i)) = calls (scheduler_loop n i)"
  using stream_of_loop by (auto simp: stream_work_def filter_id_conv)

lemma stream_work_append: "stream_work (xs @ ys) = stream_work xs @ stream_work ys"
  by (simp add: stream_work_def)

lemma stream_work_setup: "stream_work (calls (setup_steps n)) = []"
  by (simp add: stream_work_def setup_steps_def for_streams_unroll)

lemma stream_work_teardown: "stream_work (calls teardown_steps) = []"
  by (simp add: stream_work_def teardown_steps_def for_streams_unroll)

lemma stream_work_wb: "stream_work (wbSolution h n # cs) = stream_work cs"
  by (simp add: stream_work_def)

lemma stream_work_main:
  "stream_work (calls (main_steps n)) = calls (scheduler_loop n 0)"
  by (simp add: main_steps_def stream_work_append stream_work_setup stream_work_teardown
      stream_work_loop stream_work_wb)

lemma takeWhile_stop:
  "(\<forall>x\<in>set xs. \<not> P x) \<Longrightarrow> \<not> P y \<Longrightarrow> takeWhile P (xs @ y # ys) = []"
  by (cases xs) simp_all

lemma host_setup_main: "host_setup (calls (main_steps n)) = calls (setup_steps n)"
proof -
  have a: "\<forall>c\<in>set (calls (setup_steps n)). stream_of c = None \<and> \<not> is_wbSolution c"
    by (simp add: setup_steps_def for_streams_unroll)
  have b: "\<forall>c\<in>set (calls (scheduler_loop n 0)). \<not> (stream_of c = None \<and> \<not> is_wbSolution c)"
    using stream_of_loop by auto
  show ?thesis
    unfolding host_setup_def main_steps_def
    using a takeWhile_stop[of "calls (scheduler_loop n 0)"
        "\<lambda>c. stream_of c = None \<and> \<not> is_wbSolution c" "wbSolution hostOutput n", OF b]
    by (simp add: takeWhile_append2)
qed

lemma run_Some:
  "run p steps tr = (Some e, tr') \<Longrightarrow>
   e = Undefined \<or> (\<exists>err line. err \<noteq> cudaSuccess \<and> e = Exited EXIT_FAILURE (diagnostic p err line))"
  by (induction p steps tr rule: run.induct) (auto simp: check_def split: option.splits if_splits)

lemma main_Returned:
  assumes "fst (main p n) = Returned v"
  shows "v = 0" "snd (main p n) = calls (main_steps n)" "SignedOverflow \<notin> set (main_steps n)"
proof -
  obtain e tr where r: "run p (main_steps n) [] = (e, tr)" by (cases "run p (main_steps n) []")
  have e: "e = None"
  proof (cases e)
    case (Some a)
    then have "fst (main p n) = a" using r by (simp add: main_def)
    moreover have "a \<noteq> Returned v" using run_Some[of p "main_steps n" "[]" a tr] r Some by auto
    ultimately show ?thesis using assms by simp
  qed simp
  show "v = 0" using assms r e by (simp add: main_def)
  show "snd (main p n) = calls (main_steps n)" "SignedOverflow \<notin> set (main_steps n)"
    using run_None[of p "main_steps n" "[]" tr] r e by (simp_all add: main_def)
qed

text \<open>A launch with \<open>len \<le> 0\<close> and a segment of length zero touch no memory.\<close>

lemma run_threads_nothing:
  "len \<le> 0 \<Longrightarrow> run_threads in1 in2 len bd ts out = Inr out"
  by (induction ts arbitrary: out) (auto simp: vecAdd_def)

lemma no_overflow_setup: "SignedOverflow \<notin> set (setup_steps n)"
  by (simp add: setup_steps_def for_streams_unroll)

lemma no_overflow_teardown: "SignedOverflow \<notin> set teardown_steps"
  by (simp add: teardown_steps_def for_streams_unroll)

text \<open>
  When no call fails, \<open>main\<close> returns 0 for \<open>inputLength \<le> INT_MAX - 511\<close>; for a larger
  \<open>inputLength\<close> the increment of the loop counter overflows after the last chunk.
\<close>

lemma main_returns:
  assumes "n \<le> INT_MAX - 511" "\<forall>k. result p k = cudaSuccess"
  shows "main p n = (Returned 0, calls (main_steps n))"
proof -
  have "SignedOverflow \<notin> set (main_steps n)"
    using no_overflow_small[OF assms(1), of 0] no_overflow_setup no_overflow_teardown
    by (simp add: main_steps_def)
  from run_ok[OF assms(2) this, of "[]"] show ?thesis by (simp add: main_def)
qed

lemma main_overflows:
  assumes "INT_MAX - 511 < n" "\<forall>k. result p k = cudaSuccess"
  shows "fst (main p n) = Undefined"
proof -
  from overflow_large[OF assms(1), of 0] obtain pre where
    pre: "scheduler_loop n 0 = pre @ [SignedOverflow]" "SignedOverflow \<notin> set pre"
    by (auto simp: INT_MAX_def)
  have "SignedOverflow \<notin> set (setup_steps n @ pre)" using pre(2) no_overflow_setup by simp
  from run_ok[OF assms(2) this, of "[]"]
  have "run p ((setup_steps n @ pre) @ SignedOverflow # Unchecked (wbSolution hostOutput n) # teardown_steps) [] =
          (Some Undefined, calls (setup_steps n @ pre))"
    by (simp only: run_append[of p "setup_steps n @ pre"]) simp
  then show ?thesis by (simp add: main_def main_steps_def pre(1))
qed

lemma three_elements:
  "length xs = 3 \<Longrightarrow> \<forall>k<3. xs ! k = ys ! k \<Longrightarrow> length ys = 3 \<Longrightarrow> xs = ys"
  by (rule nth_equalityI) simp_all

lemma same_elements:
  assumes "length xs = n" "length ys = n" "\<forall>k<n. xs ! k = f k" "\<forall>k<n. ys ! k = f k"
  shows "xs = ys"
  using assms by (intro nth_equalityI) simp_all

lemma loop_streams:
  "\<forall>c\<in>set (calls (scheduler_loop n 0)). stream_of c \<in> Some ` {0, 1, 2, 3}"
proof
  fix c assume "c \<in> set (calls (scheduler_loop n 0))"
  then have "loop_call n c" using loop_calls_all[of 0 c n] by simp
  then obtain i t where "0 \<le> t" "t < N_STREAMS" "c \<in> set (segment_calls n i t)"
    unfolding loop_call_def by (elim exE conjE)
  then show "stream_of c \<in> Some ` {0, 1, 2, 3}"
    using stream_of_segment[of c n i t] stream_cases[of t] by auto
qed

lemma last_chunk_reached:
  "n = 512 * q + 1 \<Longrightarrow> n \<le> INT_MAX \<Longrightarrow> i = 512 * j \<Longrightarrow> 0 \<le> j \<Longrightarrow> j \<le> q \<Longrightarrow>
   \<exists>pre post. scheduler_loop n i = pre @ chunk_steps n (512 * q) @ post \<and> calls post = []"
proof (induction n i arbitrary: j rule: scheduler_loop.induct)
  case (1 n i)
  have lt: "i < n" using "1.prems" by simp
  show ?case
  proof (cases "j = q")
    case True
    then have i: "i = 512 * q" using "1.prems"(3) by simp
    show ?thesis
    proof (cases "INT_MAX < i + segmentSize * N_STREAMS")
      case True
      have "scheduler_loop n i = chunk_steps n i @ [SignedOverflow]"
        by (rule scheduler_loop_overflow[OF lt True])
      then show ?thesis
        by (intro exI[of _ "[]"] exI[of _ "[SignedOverflow]"]) (simp add: i)
    next
      case False
      have "\<not> i + segmentSize * N_STREAMS < n"
        using i "1.prems"(1) by (simp add: segmentSize_def N_STREAMS_def)
      then have "scheduler_loop n i = chunk_steps n i"
        by (simp add: scheduler_loop_next[OF lt False] scheduler_loop_done)
      then show ?thesis by (intro exI[of _ "[]"]) (simp add: i)
    qed
  next
    case False
    then have j: "j + 1 \<le> q" using "1.prems"(5) by simp
    have nov: "\<not> INT_MAX < i + segmentSize * N_STREAMS"
      using j "1.prems"(1,2,3) by (simp add: segmentSize_def N_STREAMS_def)
    have "i + segmentSize * N_STREAMS = 512 * (j + 1)"
      using "1.prems"(3) by (simp add: segmentSize_def N_STREAMS_def)
    from "1.IH"[OF lt nov "1.prems"(1,2) this _ j] "1.prems"(4)
    obtain pre post where
      "scheduler_loop n (i + segmentSize * N_STREAMS) = pre @ chunk_steps n (512 * q) @ post"
      "calls post = []" by auto
    then show ?thesis
      by (intro exI[of _ "chunk_steps n i @ pre"] exI[of _ post])
         (simp add: scheduler_loop_next[OF lt nov])
  qed
qed

lemma launch_any_order:
  assumes "0 \<le> g" "0 \<le> bd" "len \<le> int (length in1)" "len \<le> int (length in2)"
    "len \<le> int (length out)" "length out \<le> nat g * nat bd" "set ts = set (threads g bd)"
  shows "run_threads in1 in2 len (nat bd) ts out =
           Inr (map (\<lambda>k. if int k < len then in1 ! k + in2 ! k else out ! k) [0..<length out])"
proof -
  have "\<forall>bt\<in>set ts. int (thread_index (nat bd) bt) < len \<longrightarrow>
             thread_index (nat bd) bt < length in1 \<and> thread_index (nat bd) bt < length in2 \<and>
             thread_index (nat bd) bt < length out"
    using assms(3-5) by auto
  from run_threads_effect[OF this] obtain out' where
    r: "run_threads in1 in2 len (nat bd) ts out = Inr out'" and l: "length out' = length out" and
    v: "\<forall>k<length out. out' ! k =
              (if int k < len \<and> k \<in> thread_index (nat bd) ` set ts then in1 ! k + in2 ! k else out ! k)"
    by (elim exE conjE)
  have "out' = map (\<lambda>k. if int k < len then in1 ! k + in2 ! k else out ! k) [0..<length out]"
  proof (rule nth_equalityI)
    show "length out' = length (map (\<lambda>k. if int k < len then in1 ! k + in2 ! k else out ! k) [0..<length out])"
      using l by simp
  next
    fix k assume "k < length out'"
    then have k: "k < length out" using l by simp
    then have "k \<in> thread_index (nat bd) ` set ts"
      using assms(6) by (simp add: assms(7) thread_index_threads[OF assms(1,2)])
    then show "out' ! k = map (\<lambda>k. if int k < len then in1 ! k + in2 ! k else out ! k) [0..<length out] ! k"
      using v k by simp
  qed
  then show ?thesis using r by simp
qed

lemma snd_main: "snd (main p n) = snd (run p (main_steps n) [])"
  by (simp add: main_def split: prod.splits option.splits)

lemma set_calls_take: "set (calls (take k xs)) \<subseteq> set (calls xs)"
proof -
  have "calls xs = calls (take k xs) @ calls (drop k xs)"
    using calls_append[of "take k xs" "drop k xs"] by simp
  then show ?thesis by simp
qed

lemma main_trace_subset: "set (snd (main p n)) \<subseteq> set (calls (main_steps n))"
proof -
  from run_prefix[of "main_steps n" p "[]"] obtain k where
    "snd (run p (main_steps n) []) = calls (take k (main_steps n))" by auto
  then show ?thesis using set_calls_take[of k "main_steps n"] by (simp add: snd_main)
qed

lemma stream_work_empty: "(stream_work xs = []) = (\<forall>c\<in>set xs. stream_of c = None)"
  by (auto simp: stream_work_def filter_empty_conv)

lemma main_trace_Returned:
  assumes "fst (main p n) = Returned 0"
  shows "snd (main p n) =
           calls (setup_steps n) @ calls (scheduler_loop n 0) @
           wbSolution hostOutput n # calls teardown_steps"
  using main_Returned(2)[OF assms] by (simp add: main_steps_def)

lemma no_sync_issued:
  "cudaDeviceSynchronize \<notin> set (calls (main_steps n))"
  "cudaStreamSynchronize s \<notin> set (calls (main_steps n))"
  "cudaStreamDestroy s \<notin> set (calls (main_steps n))"
proof -
  have l: "c \<notin> set (calls (scheduler_loop n 0))" if "stream_of c = None" for c
    using stream_of_loop[of c n 0] that by auto
  show "cudaDeviceSynchronize \<notin> set (calls (main_steps n))"
    using l[of cudaDeviceSynchronize]
    by (simp add: main_steps_def setup_steps_def teardown_steps_def for_streams_unroll)
  show "cudaStreamSynchronize s \<notin> set (calls (main_steps n))"
    using l[of "cudaStreamSynchronize s"]
    by (simp add: main_steps_def setup_steps_def teardown_steps_def for_streams_unroll)
  show "cudaStreamDestroy s \<notin> set (calls (main_steps n))"
    using l[of "cudaStreamDestroy s"]
    by (simp add: main_steps_def setup_steps_def teardown_steps_def for_streams_unroll)
qed

text \<open>All calls of the run for \<open>inputLength = 1\<close>, in issue order.\<close>

lemma main_1_trace:
  "main ok_platform 1 =
     (Returned 0,
      [malloc hostOutput 1,
       cudaStreamCreate 0, cudaStreamCreate 1, cudaStreamCreate 2, cudaStreamCreate 3,
       cudaMalloc (deviceInput1 0) 128, cudaMalloc (deviceInput2 0) 128, cudaMalloc (deviceOutput 0) 128,
       cudaMalloc (deviceInput1 1) 128, cudaMalloc (deviceInput2 1) 128, cudaMalloc (deviceOutput 1) 128,
       cudaMalloc (deviceInput1 2) 128, cudaMalloc (deviceInput2 2) 128, cudaMalloc (deviceOutput 2) 128,
       cudaMalloc (deviceInput1 3) 128, cudaMalloc (deviceInput2 3) 128, cudaMalloc (deviceOutput 3) 128,
       cudaMemcpyAsync (Device (deviceInput1 0)) (Host hostInput1 0) 1 cudaMemcpyHostToDevice 0,
       cudaMemcpyAsync (Device (deviceInput2 0)) (Host hostInput2 0) 1 cudaMemcpyHostToDevice 0,
       cudaMemcpyAsync (Device (deviceInput1 1)) (Host hostInput1 128) 0 cudaMemcpyHostToDevice 1,
       cudaMemcpyAsync (Device (deviceInput2 1)) (Host hostInput2 128) 0 cudaMemcpyHostToDevice 1,
       cudaMemcpyAsync (Device (deviceInput1 2)) (Host hostInput1 256) 0 cudaMemcpyHostToDevice 2,
       cudaMemcpyAsync (Device (deviceInput2 2)) (Host hostInput2 256) 0 cudaMemcpyHostToDevice 2,
       cudaMemcpyAsync (Device (deviceInput1 3)) (Host hostInput1 384) 0 cudaMemcpyHostToDevice 3,
       cudaMemcpyAsync (Device (deviceInput2 3)) (Host hostInput2 384) 0 cudaMemcpyHostToDevice 3,
       vecAdd_launch 1 128 0 (deviceInput1 0) (deviceInput2 0) (deviceOutput 0) 1,
       vecAdd_launch 1 128 1 (deviceInput1 1) (deviceInput2 1) (deviceOutput 1) 0,
       vecAdd_launch 1 128 2 (deviceInput1 2) (deviceInput2 2) (deviceOutput 2) 0,
       vecAdd_launch 1 128 3 (deviceInput1 3) (deviceInput2 3) (deviceOutput 3) 0,
       cudaMemcpyAsync (Host hostOutput 0) (Device (deviceOutput 0)) 1 cudaMemcpyDeviceToHost 0,
       cudaMemcpyAsync (Host hostOutput 128) (Device (deviceOutput 1)) 0 cudaMemcpyDeviceToHost 1,
       cudaMemcpyAsync (Host hostOutput 256) (Device (deviceOutput 2)) 0 cudaMemcpyDeviceToHost 2,
       cudaMemcpyAsync (Host hostOutput 384) (Device (deviceOutput 3)) 0 cudaMemcpyDeviceToHost 3,
       wbSolution hostOutput 1,
       cudaFree (deviceInput1 0), cudaFree (deviceInput2 0), cudaFree (deviceOutput 0),
       cudaFree (deviceInput1 1), cudaFree (deviceInput2 1), cudaFree (deviceOutput 1),
       cudaFree (deviceInput1 2), cudaFree (deviceInput2 2), cudaFree (deviceOutput 2),
       cudaFree (deviceInput1 3), cudaFree (deviceInput2 3), cudaFree (deviceOutput 3),
       free hostInput1, free hostInput2, free hostOutput])"
proof -
  have l: "scheduler_loop 1 0 = chunk_steps 1 0"
    by (simp add: scheduler_loop.simps[of 1 0] scheduler_loop.simps[of 1 512]
        segmentSize_def N_STREAMS_def INT_MAX_def)
  have "main ok_platform 1 = (Returned 0, calls (main_steps 1))"
    by (rule main_returns) (simp_all add: INT_MAX_def ok_platform_def)
  then show ?thesis
    by (simp add: main_steps_def l setup_steps_def teardown_steps_def chunk_steps_def
        copy_in_def compute_def copy_out_def for_streams_unroll copySize_in_def
        copySize_launch_def copySize_out_def min_macro_def max_macro_def segmentSize_def
        BLOCK_SIZE_def)
qed

lemma no_alloc_in_loop:
  "filter is_cudaMalloc (calls (scheduler_loop n i)) = []"
  "filter is_cudaFree (calls (scheduler_loop n i)) = []"
proof -
  have "\<not> is_cudaMalloc c \<and> \<not> is_cudaFree c" if "c \<in> set (calls (scheduler_loop n i))" for c
    using stream_of_loop[OF that] by (cases c) simp_all
  then show "filter is_cudaMalloc (calls (scheduler_loop n i)) = []"
    "filter is_cudaFree (calls (scheduler_loop n i)) = []"
    by (simp_all add: filter_empty_conv)
qed

lemma ready_allocated:
  assumes "ready n in1 in2 m" "0 \<le> s" "s < N_STREAMS"
  shows "device m (deviceInput1 s) \<noteq> None \<and> device m (deviceInput2 s) \<noteq> None \<and>
         device m (deviceOutput s) \<noteq> None"
  by (rule ready_bufs[OF assms]) simp

lemma free_all:
  "distinct bs \<Longrightarrow> \<forall>b\<in>set bs. device m b \<noteq> None \<Longrightarrow>
   \<exists>m'. exec_calls u (map cudaFree bs) m = Inr m' \<and> (\<forall>b\<in>set bs. device m' b = None) \<and>
        (\<forall>b. b \<notin> set bs \<longrightarrow> device m' b = device m b)"
proof (induction bs arbitrary: m)
  case Nil
  then show ?case by simp
next
  case (Cons b bs)
  define m1 where "m1 = m\<lparr>device := (device m)(b := None)\<rparr>"
  have e: "exec_call u (cudaFree b) m = Inr m1" using Cons.prems(2) by (simp add: m1_def)
  have "distinct bs" "\<forall>x\<in>set bs. device m1 x \<noteq> None"
    using Cons.prems by (auto simp: m1_def)
  from Cons.IH[OF this] obtain m' where
    m': "exec_calls u (map cudaFree bs) m1 = Inr m'" "\<forall>x\<in>set bs. device m' x = None"
    "\<forall>x. x \<notin> set bs \<longrightarrow> device m' x = device m1 x" by (elim exE conjE)
  have "device m' b = None" using m'(3) Cons.prems(1) by (simp add: m1_def)
  moreover have "\<forall>x. x \<notin> set (b # bs) \<longrightarrow> device m' x = device m x"
    using m'(3) by (simp add: m1_def)
  ultimately show ?case using e m'(1,2) by (intro exI[of _ m']) simp
qed

lemma teardown_run:
  assumes "ready n in1 in2 m"
  shows "\<exists>m'. exec_calls u (calls teardown_steps) m = Inr m' \<and>
              (\<forall>b\<in>set buffer_pool. device m' b = None)"
proof -
  have s: "(0::int) \<le> 0" "(0::int) < N_STREAMS" "(0::int) \<le> 1" "(1::int) < N_STREAMS"
    "(0::int) \<le> 2" "(2::int) < N_STREAMS" "(0::int) \<le> 3" "(3::int) < N_STREAMS"
    by (simp_all add: N_STREAMS_def)
  have ne: "\<forall>b\<in>set buffer_pool. device m b \<noteq> None"
    using ready_allocated[OF assms s(1,2)] ready_allocated[OF assms s(3,4)]
      ready_allocated[OF assms s(5,6)] ready_allocated[OF assms s(7,8)]
    by (simp add: buffer_pool_def)
  have d: "distinct buffer_pool" by (simp add: buffer_pool_def)
  have t: "calls teardown_steps =
      map cudaFree buffer_pool @ [free hostInput1, free hostInput2, free hostOutput]"
    by (simp add: teardown_steps_def for_streams_unroll buffer_pool_def)
  from free_all[OF d ne, where u = u] obtain m' where
    "exec_calls u (map cudaFree buffer_pool) m = Inr m'" "\<forall>b\<in>set buffer_pool. device m' b = None"
    by (elim exE conjE)
  then show ?thesis by (intro exI[of _ m']) (simp add: t exec_calls_append)
qed

text \<open>A run stops at the first checked call that fails, with the diagnostic of that check.\<close>

lemma run_first_failure:
  "k < length steps \<Longrightarrow> steps ! k = Checked c line \<Longrightarrow>
   result p (length tr + k) \<noteq> cudaSuccess \<Longrightarrow>
   \<forall>j<k. passes p (length tr + j) (steps ! j) \<Longrightarrow>
   run p steps tr =
     (Some (Exited EXIT_FAILURE (diagnostic p (result p (length tr + k)) line)),
      tr @ calls (take (Suc k) steps))"
proof (induction steps arbitrary: k tr)
  case Nil
  then show ?case by simp
next
  case (Cons st steps)
  show ?case
  proof (cases k)
    case 0
    then show ?thesis using Cons.prems by (simp add: check_def)
  next
    case (Suc k')
    have st: "passes p (length tr) st" using Cons.prems(4) Suc by auto
    have rest: "\<forall>j<k'. passes p (length (tr @ [the (call_of st)]) + j) (steps ! j)"
      using Cons.prems(4) Suc by auto
    have f: "result p (length (tr @ [the (call_of st)]) + k') \<noteq> cudaSuccess"
      using Cons.prems(3) Suc by simp
    have k': "k' < length steps" "steps ! k' = Checked c line" using Cons.prems(1,2) Suc by simp_all
    note ih = Cons.IH[OF k' f rest]
    show ?thesis
    proof (cases st)
      case (Checked c0 l0)
      then show ?thesis using st ih Suc by (simp add: check_def)
    next
      case (Unchecked c0)
      then show ?thesis using ih Suc by simp
    next
      case SignedOverflow
      then show ?thesis using st by simp
    qed
  qed
qed

lemma checked_where_due_loop: "\<forall>st\<in>set (scheduler_loop n i). checked_where_due st"
proof (induction n i rule: scheduler_loop.induct)
  case (1 n i)
  have chunk: "\<forall>st\<in>set (chunk_steps n i). checked_where_due st"
    by (simp add: chunk_steps_def copy_in_def compute_def copy_out_def for_streams_unroll)
  show ?case
  proof (cases "i < n")
    case False
    then show ?thesis by (simp add: scheduler_loop_done)
  next
    case lt: True
    show ?thesis
    proof (cases "INT_MAX < i + segmentSize * N_STREAMS")
      case True
      then show ?thesis using chunk by (simp add: scheduler_loop_overflow[OF lt True])
    next
      case False
      then show ?thesis using chunk "1.IH"[OF lt False]
        by (auto simp: scheduler_loop_next[OF lt False])
    qed
  qed
qed

lemma checked_where_due_main: "\<forall>st\<in>set (main_steps n). checked_where_due st"
  using checked_where_due_loop[of n 0]
  by (auto simp: main_steps_def setup_steps_def teardown_steps_def for_streams_unroll)

lemma last_calls_take:
  "k < length steps \<Longrightarrow> steps ! k = Checked c line \<Longrightarrow> last (calls (take (Suc k) steps)) = c"
  by (simp add: take_Suc_conv_app_nth)

text \<open>
  What the code does for the calls it checks. When a call whose result goes through
  \<open>check\<close> (stream creation, device allocation, asynchronous copy, device release) is the
  first such call to fail, the process exits with status \<open>EXIT_FAILURE\<close>, which is not
  zero, after printing the platform's error string, the source file and the line of the
  check; the failing call is the last call issued, and every call before it was issued
  once.
\<close>

lemma checked_failure_exits:
  assumes "k < length (main_steps inputLength)"
    and "main_steps inputLength ! k = Checked c line"
    and "result p k \<noteq> cudaSuccess"
    and "\<forall>j<k. passes p j (main_steps inputLength ! j)"
  shows "main p inputLength =
           (Exited EXIT_FAILURE (diagnostic p (result p k) line),
            calls (take (Suc k) (main_steps inputLength))) \<and>
         EXIT_FAILURE \<noteq> 0 \<and>
         diagnostic p (result p k) line =
           [CHR 0x0A] @ ''Error found'' @ [CHR 0x0A] @ cudaGetErrorString p (result p k) @
           '' in '' @ file_name p @ '' at line '' @ decimal line \<and>
         last (snd (main p inputLength)) = c \<and>
         (\<forall>st\<in>set (main_steps inputLength). checked_where_due st)"
proof -
  have r: "run p (main_steps inputLength) [] =
     (Some (Exited EXIT_FAILURE (diagnostic p (result p k) line)),
      calls (take (Suc k) (main_steps inputLength)))"
    using run_first_failure[OF assms(1,2), of p "[]"] assms(3,4) by simp
  then have m: "main p inputLength =
           (Exited EXIT_FAILURE (diagnostic p (result p k) line),
            calls (take (Suc k) (main_steps inputLength)))"
    by (simp add: main_def)
  show ?thesis
    using m checked_where_due_main[of inputLength] last_calls_take[OF assms(1,2)]
    by (simp add: EXIT_FAILURE_def diagnostic_def)
qed

lemma decimal_93: "decimal 93 = ''93''"
  by code_simp

lemma main_steps_1_prefix:
  "take 6 (main_steps 1) =
     [Unchecked (malloc hostOutput 1),
      Checked (cudaStreamCreate 0) 84, Checked (cudaStreamCreate 1) 84,
      Checked (cudaStreamCreate 2) 84, Checked (cudaStreamCreate 3) 84,
      Checked (cudaMalloc (deviceInput1 0) 128) 93]"
  by (simp add: main_steps_def setup_steps_def for_streams_unroll segmentSize_def)

lemma checked_failure_exits_at_93:
  "5 < length (main_steps 1) \<and>
   main_steps 1 ! 5 = Checked (cudaMalloc (deviceInput1 0) 128) 93 \<and>
   result (failing_at 5 (cudaErrorCode 2)) 5 \<noteq> cudaSuccess \<and>
   main (failing_at 5 (cudaErrorCode 2)) 1 =
     (Exited 1 (CHR 0x0A # ''Error found'' @ CHR 0x0A # ''out of memory in Lab7.c at line 93''),
      [malloc hostOutput 1,
       cudaStreamCreate 0, cudaStreamCreate 1, cudaStreamCreate 2, cudaStreamCreate 3,
       cudaMalloc (deviceInput1 0) 128])"
proof -
  have len: "5 < length (main_steps 1)"
    by (simp add: main_steps_def setup_steps_def for_streams_unroll)
  have nth: "main_steps 1 ! j = take 6 (main_steps 1) ! j" if "j < 6" for j
    using that by simp
  have at: "main_steps 1 ! 5 = Checked (cudaMalloc (deviceInput1 0) 128) 93"
    by (simp add: nth main_steps_1_prefix)
  have f: "result (failing_at 5 (cudaErrorCode 2)) 5 \<noteq> cudaSuccess"
    by (simp add: failing_at_def)
  have before: "\<forall>j<5. passes (failing_at 5 (cudaErrorCode 2)) j (main_steps 1 ! j)"
  proof (intro allI impI)
    fix j :: nat assume "j < 5"
    then have "j = 0 \<or> j = 1 \<or> j = 2 \<or> j = 3 \<or> j = 4" by arith
    then show "passes (failing_at 5 (cudaErrorCode 2)) j (main_steps 1 ! j)"
      by (elim disjE) (simp_all add: nth main_steps_1_prefix failing_at_def)
  qed
  from checked_failure_exits[OF len at f before]
  show ?thesis using len at f
    by (simp add: main_steps_1_prefix diagnostic_def decimal_93 failing_at_def EXIT_FAILURE_def
        del: decimal.simps)
qed

lemma events_from_fst [simp]: "map fst (events_from p k cs) = cs"
  by (induction cs arbitrary: k) simp_all

lemma events_fst [simp]: "map fst (events p tr) = tr"
  by (simp add: events_def)

lemma events_from_append:
  "events_from p k (xs @ ys) = events_from p k xs @ events_from p (k + length xs) ys"
  by (induction xs arbitrary: k) simp_all

lemma events_from_ok:
  "\<forall>k. result p k = cudaSuccess \<Longrightarrow> events_from p k cs = map (\<lambda>c. (c, cudaSuccess)) cs"
  by (induction cs arbitrary: k) simp_all

lemma events_ok:
  "\<forall>k. result p k = cudaSuccess \<Longrightarrow> events p cs = map (\<lambda>c. (c, cudaSuccess)) cs"
  by (simp add: events_def events_from_ok)

lemma succeeded_ok: "\<forall>k. result p k = cudaSuccess \<Longrightarrow> succeeded (events p cs)"
  by (simp add: events_ok succeeded_def list_all_iff)

lemma exec_events_append:
  "exec_events u (xs @ ys) m =
     (case exec_events u xs m of Inl f \<Rightarrow> Inl f | Inr m' \<Rightarrow> exec_events u ys m')"
  by (induction xs arbitrary: m) (simp_all split: sum.splits)

lemma exec_events_succeeded:
  "succeeded evs \<Longrightarrow> exec_events u evs m = exec_calls u (map fst evs) m"
  by (induction evs arbitrary: m) (auto simp: succeeded_def exec_event_def split: sum.splits)

lemma succeeded_append: "succeeded (xs @ ys) = (succeeded xs \<and> succeeded ys)"
  by (simp add: succeeded_def)

lemma succeeded_subset: "succeeded xs \<Longrightarrow> set ys \<subseteq> set xs \<Longrightarrow> succeeded ys"
  by (auto simp: succeeded_def list_all_iff)

lemma stream_events_fst: "map fst (stream_events evs) = stream_work (map fst evs)"
  by (simp add: stream_events_def stream_work_def filter_map comp_def)

lemma events_on_fst: "map fst (events_on s evs) = on_stream s (map fst evs)"
  by (simp add: events_on_def on_stream_def filter_map comp_def)

lemma setup_events_fst: "map fst (setup_events evs) = host_setup (map fst evs)"
  by (simp add: setup_events_def host_setup_def takeWhile_map comp_def)

lemma respects_streams_on:
  assumes "respects_streams issued sched"
  shows "events_on s sched = events_on s issued"
proof (cases "\<exists>e\<in>set (issued @ sched). stream_of (fst e) = Some s")
  case True
  then obtain e where e: "e \<in> set (issued @ sched)" "stream_of (fst e) = Some s" by (elim bexE)
  have "\<forall>e\<in>set (issued @ sched). (case stream_of (fst e) of None \<Rightarrow> True
          | Some s \<Rightarrow> events_on s sched = events_on s issued)"
    using assms by (simp add: respects_streams_def list_all_iff)
  from bspec[OF this e(1)] show ?thesis by (simp add: e(2))
next
  case False
  then have "events_on s sched = []" "events_on s issued = []"
    by (auto simp: events_on_def filter_empty_conv)
  then show ?thesis by simp
qed

lemma respects_streams_set:
  assumes "respects_streams issued sched"
  shows "set sched \<subseteq> set issued"
proof
  fix e assume e: "e \<in> set sched"
  have "stream_of (fst e) \<noteq> None" using assms e by (auto simp: respects_streams_def list_all_iff)
  then obtain s where s: "stream_of (fst e) = Some s" by auto
  then have "e \<in> set (events_on s sched)" using e by (simp add: events_on_def)
  then have "e \<in> set (events_on s issued)" using respects_streams_on[OF assms] by simp
  then show "e \<in> set issued" by (simp add: events_on_def)
qed

lemma respects_streams_order:
  assumes "respects_streams issued sched"
  shows "stream_order (map fst issued) (map fst sched)"
proof -
  have a: "list_all (\<lambda>c. stream_of c \<noteq> None) (map fst sched)"
    using assms by (simp add: respects_streams_def list_all_iff)
  have b: "on_stream s (map fst sched) = on_stream s (map fst issued)" for s
    using respects_streams_on[OF assms, of s] events_on_fst[of s sched] events_on_fst[of s issued]
    by simp
  show ?thesis
    unfolding stream_order_def using a b by (simp add: list_all_iff split: option.splits)
qed

lemma respects_streams_refl: "respects_streams (stream_events evs) (stream_events evs)"
  by (auto simp: respects_streams_def stream_events_def list_all_iff split: option.splits)

lemma setup_events_subset: "set (setup_events evs) \<subseteq> set evs"
  by (auto simp: setup_events_def dest: set_takeWhileD)

lemma stream_events_subset: "set (stream_events evs) \<subseteq> set evs"
  by (auto simp: stream_events_def)

text \<open>
  In a run that returned 0 with every device operation carried out, the calls before the
  stream work followed by the stream work in any stream-respecting order give the sum.
\<close>

lemma pipeline_events:
  assumes "n \<le> INT_MAX" "length in1 = nat n" "length in2 = nat n"
    and "fst (main p n) = Returned 0" "succeeded (events p (snd (main p n)))"
    and "respects_streams (stream_events (events p (snd (main p n)))) sched"
  shows "\<exists>m. exec_events u (setup_events (events p (snd (main p n))) @ sched) (start in1 in2) = Inr m \<and>
             length (host m hostOutput) = nat n \<and>
             (\<forall>k<nat n. host m hostOutput ! k = in1 ! k + in2 ! k)"
proof -
  let ?E = "events p (snd (main p n))"
  have tr: "snd (main p n) = calls (main_steps n)" by (rule main_Returned(2)[OF assms(4)])
  have "set sched \<subseteq> set ?E"
    using respects_streams_set[OF assms(6)] stream_events_subset[of ?E] by blast
  then have "set (setup_events ?E @ sched) \<subseteq> set ?E"
    using setup_events_subset[of ?E] by simp
  then have s: "succeeded (setup_events ?E @ sched)"
    by (rule succeeded_subset[OF assms(5)])
  have o: "stream_order (calls (scheduler_loop n 0)) (map fst sched)"
    using respects_streams_order[OF assms(6)]
    by (simp add: stream_events_fst tr stream_work_main)
  have e: "exec_events u (setup_events ?E @ sched) (start in1 in2) =
           exec_calls u (calls (setup_steps n) @ map fst sched) (start in1 in2)"
    using exec_events_succeeded[OF s, of u "start in1 in2"]
    by (simp add: setup_events_fst tr host_setup_main)
  from pipeline_result[OF assms(1,2,3) o, where u = u] show ?thesis
    unfolding e by simp
qed

lemma main_returns_succeeded:
  assumes "n \<le> INT_MAX - 511" "\<forall>k. result p k = cudaSuccess"
  shows "fst (main p n) = Returned 0" "succeeded (events p (snd (main p n)))"
  using main_returns[OF assms] succeeded_ok[OF assms(2)] by simp_all

text \<open>
  The run for \<open>inputLength = 1\<close> on a platform where only the first kernel launch fails
  (call 25): the events of the run, and what executing them leaves in the output vector.
\<close>

lemma main_1_failed_launch:
  "main (failing_at 25 (cudaErrorCode 719)) 1 = main ok_platform 1"
proof -
  have l: "scheduler_loop 1 0 = chunk_steps 1 0"
    by (simp add: scheduler_loop.simps[of 1 0] scheduler_loop.simps[of 1 512]
        segmentSize_def N_STREAMS_def INT_MAX_def)
  show ?thesis
    by (simp add: main_1_trace)
       (simp add: main_def main_steps_def l setup_steps_def teardown_steps_def chunk_steps_def
        copy_in_def compute_def copy_out_def for_streams_unroll copySize_in_def
        copySize_launch_def copySize_out_def min_macro_def max_macro_def segmentSize_def
        BLOCK_SIZE_def failing_at_def check_def)
qed

lemma result_failing_at: "result (failing_at k e) j = (if j = k then e else cudaSuccess)"
  by (simp add: failing_at_def)

lemma failed_launch_output:
  "(case exec_events (\<lambda>c k. 7)
           (setup_events (events (failing_at 25 (cudaErrorCode 719))
                            (snd (main (failing_at 25 (cudaErrorCode 719)) 1))) @
            stream_events (events (failing_at 25 (cudaErrorCode 719))
                            (snd (main (failing_at 25 (cudaErrorCode 719)) 1))))
           (start [1] [10 :: int]) of
      Inl f \<Rightarrow> None | Inr m \<Rightarrow> Some (host m hostOutput)) = Some [7]"
  apply (simp only: main_1_failed_launch main_1_trace snd_conv)
  apply (simp add: events_def result_failing_at setup_events_def
      stream_events_def exec_event_def start_def copy_elems_def run_threads_nothing)
  done

lemma failed_launch_events:
  "events (failing_at 25 (cudaErrorCode 719)) (snd (main (failing_at 25 (cudaErrorCode 719)) 1)) ! 25 =
     (vecAdd_launch 1 128 0 (deviceInput1 0) (deviceInput2 0) (deviceOutput 0) 1, cudaErrorCode 719)"
  "\<not> succeeded (events (failing_at 25 (cudaErrorCode 719))
                  (snd (main (failing_at 25 (cudaErrorCode 719)) 1)))"
  apply (simp_all only: main_1_failed_launch main_1_trace snd_conv)
  apply (simp_all add: events_def result_failing_at succeeded_def)
  done

lemma events_on_append: "events_on s (xs @ ys) = events_on s xs @ events_on s ys"
  by (simp add: events_on_def)

lemma events_on_events_on:
  "events_on s (events_on t W) = (if s = t then events_on s W else [])"
  by (auto simp: events_on_def filter_empty_conv)

lemma stream_major_events:
  assumes "\<forall>e\<in>set W. stream_of (fst e) \<in> Some ` {0, 1, 2, 3}"
  shows "respects_streams W (events_on 3 W @ events_on 2 W @ events_on 1 W @ events_on 0 W)"
proof -
  let ?sched = "events_on 3 W @ events_on 2 W @ events_on 1 W @ events_on 0 W"
  have a: "\<forall>e\<in>set ?sched. stream_of (fst e) \<noteq> None"
    by (auto simp: events_on_def)
  have b: "events_on s ?sched = events_on s W" if "s \<in> {0, 1, 2, 3}" for s
    using that by (auto simp: events_on_append events_on_events_on)
  have c: "set ?sched \<subseteq> set W" by (auto simp: events_on_def)
  have "\<forall>e\<in>set (W @ ?sched). case stream_of (fst e) of None \<Rightarrow> True
          | Some s \<Rightarrow> events_on s ?sched = events_on s W"
  proof
    fix x assume "x \<in> set (W @ ?sched)"
    then have "x \<in> set W" using c by auto
    then obtain s where "stream_of (fst x) = Some s" "s \<in> {0, 1, 2, 3}" using assms by auto
    then show "case stream_of (fst x) of None \<Rightarrow> True
          | Some s \<Rightarrow> events_on s ?sched = events_on s W"
      using b by simp
  qed
  then show ?thesis using a unfolding respects_streams_def list_all_iff by simp
qed

lemma stream_events_streams:
  assumes "fst (main p n) = Returned 0"
  shows "\<forall>e\<in>set (stream_events (events p (snd (main p n)))). stream_of (fst e) \<in> Some ` {0, 1, 2, 3}"
proof
  fix e assume "e \<in> set (stream_events (events p (snd (main p n))))"
  then have "fst e \<in> set (map fst (stream_events (events p (snd (main p n)))))" by simp
  then have "fst e \<in> set (calls (scheduler_loop n 0))"
    by (simp only: stream_events_fst events_fst main_Returned(2)[OF assms] stream_work_main)
  then show "stream_of (fst e) \<in> Some ` {0, 1, 2, 3}" using loop_streams[of n] by blast
qed

text \<open>The status at the position of the first call, a host allocation, means nothing.\<close>

lemma events_from_later:
  "\<forall>j\<ge>k. result p j = cudaSuccess \<Longrightarrow> events_from p k cs = map (\<lambda>c. (c, cudaSuccess)) cs"
  by (induction cs arbitrary: k) simp_all

lemma succeeded_after_malloc:
  assumes "\<forall>j\<ge>1. result p j = cudaSuccess"
  shows "succeeded (events p (malloc h n # cs))"
  using events_from_later[of 1 p cs] assms
  by (simp add: events_def succeeded_def list_all_iff)

lemma events_from_set: "e \<in> set (events_from p k cs) \<Longrightarrow> fst e \<in> set cs"
proof -
  assume "e \<in> set (events_from p k cs)"
  then have "fst e \<in> fst ` set (events_from p k cs)" by (rule imageI)
  then show ?thesis by (simp only: set_map[symmetric] events_from_fst)
qed

text \<open>Whatever the launches returned, the calls of the loop leave a memory ready.\<close>

lemma loop_events_run:
  "\<forall>e\<in>set evs. loop_call n (fst e) \<Longrightarrow> ready n in1 in2 m \<Longrightarrow>
   \<exists>m'. exec_events u evs m = Inr m' \<and> ready n in1 in2 m'"
proof (induction evs arbitrary: m)
  case Nil
  then show ?case by simp
next
  case (Cons e evs)
  have lc: "loop_call n (fst e)" using Cons.prems(1) by simp
  then obtain i t where it: "0 \<le> t" "fst e \<in> set (segment_calls n i t)"
    unfolding loop_call_def by (elim exE conjE)
  have "stream_of (fst e) \<noteq> Some (- 1)" using stream_of_segment[OF it(2)] it(1) by simp
  from step_other[OF lc this Cons.prems(2), where u = u] obtain m1 where
    m1: "exec_call u (fst e) m = Inr m1" "ready n in1 in2 m1" by (elim exE conjE)
  have "\<exists>m2. exec_event u e m = Inr m2 \<and> ready n in1 in2 m2"
    using m1 Cons.prems(2) by (simp add: exec_event_def)
  then obtain m2 where m2: "exec_event u e m = Inr m2" "ready n in1 in2 m2" by (elim exE conjE)
  have "\<forall>e\<in>set evs. loop_call n (fst e)" using Cons.prems(1) by simp
  from Cons.IH[OF this m2(2)] show ?case using m2(1) by simp
qed

text \<open>In a run that goes on to its end, every call that is checked has succeeded.\<close>

lemma run_checked_ok:
  "run p steps tr = (None, tr') \<Longrightarrow> \<forall>st\<in>set steps. checked_where_due st \<Longrightarrow>
   \<forall>e\<in>set (events_from p (length tr) (calls steps)). is_checked_kind (fst e) \<longrightarrow> snd e = cudaSuccess"
proof (induction p steps tr rule: run.induct)
  case (1 p tr)
  then show ?case by simp
next
  case (2 p c line rest tr)
  from "2.prems"(1) have ok: "result p (length tr) = cudaSuccess"
    and rest: "run p rest (tr @ [c]) = (None, tr')"
    by (auto simp: check_def split: option.splits if_splits)
  have "check p (result p (length tr)) line = None" using ok by (simp add: check_def)
  from "2.IH"[OF this rest] "2.prems"(2) ok show ?case by simp
next
  case (3 p c rest tr)
  from "3.prems"(1) have "run p rest (tr @ [c]) = (None, tr')" by simp
  from "3.IH"[OF this] "3.prems"(2) show ?case by simp
next
  case (4 p rest tr)
  then show ?case by simp
qed

lemma returned_checked_ok:
  assumes "fst (main p n) = Returned 0"
  shows "\<forall>e\<in>set (events p (snd (main p n))). is_checked_kind (fst e) \<longrightarrow> snd e = cudaSuccess"
proof -
  obtain e tr where r: "run p (main_steps n) [] = (e, tr)" by (cases "run p (main_steps n) []")
  have "e = None"
  proof (cases e)
    case (Some a)
    then have "fst (main p n) = a" using r by (simp add: main_def)
    moreover have "a \<noteq> Returned 0" using run_Some[of p "main_steps n" "[]" a tr] r Some by auto
    ultimately show ?thesis using assms by simp
  qed simp
  then have r': "run p (main_steps n) [] = (None, tr)" using r by simp
  have "tr = calls (main_steps n)" using run_None[OF r'] by simp
  then have "snd (main p n) = calls (main_steps n)" using r' by (simp add: main_def)
  then show ?thesis
    using run_checked_ok[OF r' checked_where_due_main] by (simp add: events_def)
qed

lemma checked_succeeded:
  assumes "\<forall>e\<in>set evs. is_checked_kind (fst e) \<longrightarrow> snd e = cudaSuccess"
    and "\<forall>e\<in>set evs. is_checked_kind (fst e) \<or> \<not> is_device_call (fst e)"
  shows "succeeded evs"
  using assms by (auto simp: succeeded_def list_all_iff)

lemma returned_run:
  assumes "fst (main p n) = Returned 0" "n \<le> INT_MAX"
    and "length in1 = nat n" "length in2 = nat n"
  shows "\<exists>m. exec_events u (events p (snd (main p n))) (start in1 in2) = Inr m \<and>
             (\<forall>b\<in>set buffer_pool. device m b = None)"
proof -
  note tr = main_trace_Returned[OF assms(1)]
  let ?S = "calls (setup_steps n)" and ?L = "calls (scheduler_loop n 0)"
  let ?T = "wbSolution hostOutput n # calls teardown_steps"
  let ?E1 = "events_from p 0 ?S" and ?E2 = "events_from p (length ?S) ?L"
  let ?E3 = "events_from p (length ?S + length ?L) ?T"
  have E: "events p (snd (main p n)) = ?E1 @ ?E2 @ ?E3"
    by (simp add: events_def tr events_from_append)
  have ck: "\<forall>e\<in>set (?E1 @ ?E2 @ ?E3). is_checked_kind (fst e) \<longrightarrow> snd e = cudaSuccess"
    using returned_checked_ok[OF assms(1)] unfolding E .
  have k1: "\<forall>e\<in>set ?E1. is_checked_kind (fst e) \<or> \<not> is_device_call (fst e)"
  proof
    fix e assume "e \<in> set ?E1"
    then have "fst e \<in> set ?S" by (rule events_from_set)
    then show "is_checked_kind (fst e) \<or> \<not> is_device_call (fst e)"
      by (auto simp: setup_steps_def for_streams_unroll)
  qed
  have k3: "\<forall>e\<in>set ?E3. is_checked_kind (fst e) \<or> \<not> is_device_call (fst e)"
  proof
    fix e assume "e \<in> set ?E3"
    then have "fst e \<in> set ?T" by (rule events_from_set)
    then show "is_checked_kind (fst e) \<or> \<not> is_device_call (fst e)"
      by (auto simp: teardown_steps_def for_streams_unroll)
  qed
  have s1: "succeeded ?E1" using ck k1 by (intro checked_succeeded) auto
  have s3: "succeeded ?E3" using ck k3 by (intro checked_succeeded) auto
  have l2: "\<forall>e\<in>set ?E2. loop_call n (fst e)"
  proof
    fix e assume "e \<in> set ?E2"
    then have "fst e \<in> set ?L" by (rule events_from_set)
    then show "loop_call n (fst e)" using loop_calls_all[of 0 "fst e" n] by simp
  qed
  from setup_ready[OF assms(3,4), where u = u] obtain m0 where
    m0: "exec_calls u ?S (start in1 in2) = Inr m0" "ready n in1 in2 m0" by (elim exE conjE)
  have e1: "exec_events u ?E1 (start in1 in2) = Inr m0"
    using exec_events_succeeded[OF s1, of u "start in1 in2"] m0(1) by simp
  from loop_events_run[OF l2 m0(2), where u = u] obtain m1 where
    m1: "exec_events u ?E2 m0 = Inr m1" "ready n in1 in2 m1" by (elim exE conjE)
  from teardown_run[OF m1(2), where u = u] obtain m2 where
    m2: "exec_calls u (calls teardown_steps) m1 = Inr m2"
    "\<forall>b\<in>set buffer_pool. device m2 b = None" by (elim exE conjE)
  have e3: "exec_events u ?E3 m1 = Inr m2"
    using exec_events_succeeded[OF s3, of u m1] m2(1) by simp
  have "exec_events u (events p (snd (main p n))) (start in1 in2) = Inr m2"
    unfolding E by (simp only: exec_events_append e1 m1(1) e3 sum.case)
  then show ?thesis using m2(2) by (intro exI[of _ m2] conjI)
qed

text \<open>The steps of the run for \<open>inputLength = 1\<close>, in issue order.\<close>

lemma main_steps_1:
  "main_steps 1 =
     [Unchecked (malloc hostOutput 1),
      Checked (cudaStreamCreate 0) 84, Checked (cudaStreamCreate 1) 84,
      Checked (cudaStreamCreate 2) 84, Checked (cudaStreamCreate 3) 84,
      Checked (cudaMalloc (deviceInput1 0) 128) 93, Checked (cudaMalloc (deviceInput2 0) 128) 94,
      Checked (cudaMalloc (deviceOutput 0) 128) 95,
      Checked (cudaMalloc (deviceInput1 1) 128) 93, Checked (cudaMalloc (deviceInput2 1) 128) 94,
      Checked (cudaMalloc (deviceOutput 1) 128) 95,
      Checked (cudaMalloc (deviceInput1 2) 128) 93, Checked (cudaMalloc (deviceInput2 2) 128) 94,
      Checked (cudaMalloc (deviceOutput 2) 128) 95,
      Checked (cudaMalloc (deviceInput1 3) 128) 93, Checked (cudaMalloc (deviceInput2 3) 128) 94,
      Checked (cudaMalloc (deviceOutput 3) 128) 95,
      Checked (cudaMemcpyAsync (Device (deviceInput1 0)) (Host hostInput1 0) 1 cudaMemcpyHostToDevice 0) 113,
      Checked (cudaMemcpyAsync (Device (deviceInput2 0)) (Host hostInput2 0) 1 cudaMemcpyHostToDevice 0) 118,
      Checked (cudaMemcpyAsync (Device (deviceInput1 1)) (Host hostInput1 128) 0 cudaMemcpyHostToDevice 1) 113,
      Checked (cudaMemcpyAsync (Device (deviceInput2 1)) (Host hostInput2 128) 0 cudaMemcpyHostToDevice 1) 118,
      Checked (cudaMemcpyAsync (Device (deviceInput1 2)) (Host hostInput1 256) 0 cudaMemcpyHostToDevice 2) 113,
      Checked (cudaMemcpyAsync (Device (deviceInput2 2)) (Host hostInput2 256) 0 cudaMemcpyHostToDevice 2) 118,
      Checked (cudaMemcpyAsync (Device (deviceInput1 3)) (Host hostInput1 384) 0 cudaMemcpyHostToDevice 3) 113,
      Checked (cudaMemcpyAsync (Device (deviceInput2 3)) (Host hostInput2 384) 0 cudaMemcpyHostToDevice 3) 118,
      Unchecked (vecAdd_launch 1 128 0 (deviceInput1 0) (deviceInput2 0) (deviceOutput 0) 1),
      Unchecked (vecAdd_launch 1 128 1 (deviceInput1 1) (deviceInput2 1) (deviceOutput 1) 0),
      Unchecked (vecAdd_launch 1 128 2 (deviceInput1 2) (deviceInput2 2) (deviceOutput 2) 0),
      Unchecked (vecAdd_launch 1 128 3 (deviceInput1 3) (deviceInput2 3) (deviceOutput 3) 0),
      Checked (cudaMemcpyAsync (Host hostOutput 0) (Device (deviceOutput 0)) 1 cudaMemcpyDeviceToHost 0) 138,
      Checked (cudaMemcpyAsync (Host hostOutput 128) (Device (deviceOutput 1)) 0 cudaMemcpyDeviceToHost 1) 138,
      Checked (cudaMemcpyAsync (Host hostOutput 256) (Device (deviceOutput 2)) 0 cudaMemcpyDeviceToHost 2) 138,
      Checked (cudaMemcpyAsync (Host hostOutput 384) (Device (deviceOutput 3)) 0 cudaMemcpyDeviceToHost 3) 138,
      Unchecked (wbSolution hostOutput 1),
      Checked (cudaFree (deviceInput1 0)) 152, Checked (cudaFree (deviceInput2 0)) 153,
      Checked (cudaFree (deviceOutput 0)) 154,
      Checked (cudaFree (deviceInput1 1)) 152, Checked (cudaFree (deviceInput2 1)) 153,
      Checked (cudaFree (deviceOutput 1)) 154,
      Checked (cudaFree (deviceInput1 2)) 152, Checked (cudaFree (deviceInput2 2)) 153,
      Checked (cudaFree (deviceOutput 2)) 154,
      Checked (cudaFree (deviceInput1 3)) 152, Checked (cudaFree (deviceInput2 3)) 153,
      Checked (cudaFree (deviceOutput 3)) 154,
      Unchecked (free hostInput1), Unchecked (free hostInput2), Unchecked (free hostOutput)]"
proof -
  have l: "scheduler_loop 1 0 = chunk_steps 1 0"
    by (simp add: scheduler_loop.simps[of 1 0] scheduler_loop.simps[of 1 512]
        segmentSize_def N_STREAMS_def INT_MAX_def)
  show ?thesis
    by (simp add: main_steps_def l setup_steps_def teardown_steps_def chunk_steps_def
        copy_in_def compute_def copy_out_def for_streams_unroll copySize_in_def
        copySize_launch_def copySize_out_def min_macro_def max_macro_def segmentSize_def
        BLOCK_SIZE_def)
qed

lemma decimal_118: "decimal 118 = ''118''"
  by code_simp

lemma main_1_failed_copy:
  "main (failing_at 24 (cudaErrorCode 719)) 1 =
     (Exited EXIT_FAILURE
        (CHR 0x0A # ''Error found'' @ CHR 0x0A # ''out of memory in Lab7.c at line 118''),
      take 25 (snd (main ok_platform 1)))"
  by (simp add: main_1_trace)
     (simp add: main_def main_steps_1 result_failing_at check_def diagnostic_def decimal_118
        failing_at_def del: decimal.simps)

lemma sizes_simps [simp]:
  "sizes P [] = []"
  "sizes P (c # cs) = (if P c then (case len_of c of None \<Rightarrow> sizes P cs | Some n \<Rightarrow> n # sizes P cs)
                       else sizes P cs)"
  by (simp_all add: sizes_def map_filter_simps split: option.splits)

lemma sizes_append: "sizes P (xs @ ys) = sizes P xs @ sizes P ys"
  by (induction xs) (simp_all split: option.splits)

lemma sizes_chunk:
  "sizes (is_copy_from hostInput1) (calls (chunk_steps n i)) =
     [copySize_in n i 0, copySize_in n i 1, copySize_in n i 2, copySize_in n i 3]"
  "sizes (is_copy_from hostInput2) (calls (chunk_steps n i)) =
     [copySize_in n i 0, copySize_in n i 1, copySize_in n i 2, copySize_in n i 3]"
  "sizes is_launch (calls (chunk_steps n i)) =
     [copySize_launch n i 0, copySize_launch n i 1, copySize_launch n i 2, copySize_launch n i 3]"
  "sizes (is_copy_to hostOutput) (calls (chunk_steps n i)) =
     [copySize_out n i 0, copySize_out n i 1, copySize_out n i 2, copySize_out n i 3]"
  by (simp_all add: chunk_steps_def copy_in_def compute_def copy_out_def for_streams_unroll)

lemma sizes_chunk_sum:
  assumes "i < n"
  shows "sum_list (sizes (is_copy_from hostInput1) (calls (chunk_steps n i))) =
           min (segmentSize * N_STREAMS) (n - i)"
    "sum_list (sizes (is_copy_from hostInput2) (calls (chunk_steps n i))) =
           min (segmentSize * N_STREAMS) (n - i)"
    "sum_list (sizes is_launch (calls (chunk_steps n i))) =
           min (segmentSize * N_STREAMS) (n - i)"
    "sum_list (sizes (is_copy_to hostOutput) (calls (chunk_steps n i))) =
           min (segmentSize * N_STREAMS) (n - i)"
  using chunk_sum[OF assms]
  by (simp_all add: sizes_chunk copySize_bounds(4,5))

lemma sweep_sizes:
  assumes "\<And>n i. i < n \<Longrightarrow>
             sum_list (sizes P (calls (chunk_steps n i))) = min (segmentSize * N_STREAMS) (n - i)"
  shows "n \<le> INT_MAX \<Longrightarrow>
     sum_list (sizes P (calls (scheduler_loop n i))) = (if i < n then n - i else 0)"
proof (induction n i rule: scheduler_loop.induct)
  case (1 n i)
  show ?case
  proof (cases "i < n")
    case False
    then show ?thesis by (simp add: scheduler_loop_done)
  next
    case True
    note lt = this
    show ?thesis
    proof (cases "INT_MAX < i + segmentSize * N_STREAMS")
      case True
      have "sum_list (sizes P (calls (scheduler_loop n i))) = min (segmentSize * N_STREAMS) (n - i)"
        using assms[OF lt]
        by (simp add: scheduler_loop_overflow[OF lt True] sizes_append)
      then show ?thesis using lt True "1.prems" by simp
    next
      case False
      have "sum_list (sizes P (calls (scheduler_loop n i))) = min (segmentSize * N_STREAMS) (n - i) +
          sum_list (sizes P (calls (scheduler_loop n (i + segmentSize * N_STREAMS))))"
        using assms[OF lt]
        by (simp add: scheduler_loop_next[OF lt False] sizes_append)
      then show ?thesis using lt False "1.IH"[OF lt False "1.prems"]
        by (simp add: segmentSize_def N_STREAMS_def)
    qed
  qed
qed

text \<open>A copy or a launch of the loop that covers no element leaves memory as it is.\<close>

lemma zero_call_noop:
  assumes "c \<in> set (segment_calls n i t)" "len_of c = Some 0" "t \<in> streams m"
  shows "exec_call u c m = Inr m"
proof -
  have k: "(if device m (deviceOutput t) = None then m
         else m\<lparr>device := (device m)(deviceOutput t \<mapsto> contents (device m (deviceOutput t)))\<rparr>) = m"
    by (cases "device m (deviceOutput t)") (simp_all add: fun_upd_idem)
  from segment_calls_nth[OF assms(1)] show ?thesis
    using assms(2,3) k
    by (elim disjE) (simp_all add: segment_calls_def run_threads_nothing)
qed

lemma zero_event_noop:
  assumes "c \<in> set (segment_calls n i t)" "len_of c = Some 0" "t \<in> streams m"
  shows "exec_event u (c, e) m = Inr m"
  using zero_call_noop[OF assms, of u] by (simp add: exec_event_def)

lemma len_of_segment:
  "c \<in> set (segment_calls n i t) \<Longrightarrow>
   len_of c = Some (max 0 (min segmentSize (n - (i + t * segmentSize))))"
  by (auto simp: segment_calls_def copySize_eq max.commute diff_diff_eq)

lemma loop_513:
  "calls (scheduler_loop 513 0) = calls (chunk_steps 513 0) @ calls (chunk_steps 513 512)"
  by (simp add: scheduler_loop.simps[of 513 0] scheduler_loop.simps[of 513 512]
      scheduler_loop.simps[of 513 1024] segmentSize_def N_STREAMS_def INT_MAX_def)

lemma no_calls_no_steps:
  assumes "calls xs = []" "SignedOverflow \<notin> set xs"
  shows "xs = []"
proof (cases xs)
  case Nil
  then show ?thesis .
next
  case (Cons st rest)
  then show ?thesis using assms by (cases st) simp_all
qed

lemma last_chunk_is_last:
  assumes "n = 512 * q + 1" "n \<le> INT_MAX - 511" "0 \<le> q"
  shows "\<exists>pre. scheduler_loop n 0 = pre @ chunk_steps n (512 * q)"
proof -
  have n: "n \<le> INT_MAX" using assms(2) by simp
  from last_chunk_reached[OF assms(1) n, of 0 0] assms(3) obtain pre post where
    p: "scheduler_loop n 0 = pre @ chunk_steps n (512 * q) @ post" "calls post = []"
    by auto
  have "SignedOverflow \<notin> set (scheduler_loop n 0)" by (rule no_overflow_small[OF assms(2)])
  then have "SignedOverflow \<notin> set post" using p(1) by simp
  then have "post = []" by (rule no_calls_no_steps[OF p(2)])
  then show ?thesis using p(1) by (intro exI[of _ pre]) simp
qed

lemma last_chunk_calls:
  assumes "n = i + 1"
  shows "calls (chunk_steps n i) =
     [cudaMemcpyAsync (Device (deviceInput1 0)) (Host hostInput1 i) 1 cudaMemcpyHostToDevice 0,
      cudaMemcpyAsync (Device (deviceInput2 0)) (Host hostInput2 i) 1 cudaMemcpyHostToDevice 0,
      cudaMemcpyAsync (Device (deviceInput1 1)) (Host hostInput1 (i + 128)) 0 cudaMemcpyHostToDevice 1,
      cudaMemcpyAsync (Device (deviceInput2 1)) (Host hostInput2 (i + 128)) 0 cudaMemcpyHostToDevice 1,
      cudaMemcpyAsync (Device (deviceInput1 2)) (Host hostInput1 (i + 256)) 0 cudaMemcpyHostToDevice 2,
      cudaMemcpyAsync (Device (deviceInput2 2)) (Host hostInput2 (i + 256)) 0 cudaMemcpyHostToDevice 2,
      cudaMemcpyAsync (Device (deviceInput1 3)) (Host hostInput1 (i + 384)) 0 cudaMemcpyHostToDevice 3,
      cudaMemcpyAsync (Device (deviceInput2 3)) (Host hostInput2 (i + 384)) 0 cudaMemcpyHostToDevice 3,
      vecAdd_launch 1 128 0 (deviceInput1 0) (deviceInput2 0) (deviceOutput 0) 1,
      vecAdd_launch 1 128 1 (deviceInput1 1) (deviceInput2 1) (deviceOutput 1) 0,
      vecAdd_launch 1 128 2 (deviceInput1 2) (deviceInput2 2) (deviceOutput 2) 0,
      vecAdd_launch 1 128 3 (deviceInput1 3) (deviceInput2 3) (deviceOutput 3) 0,
      cudaMemcpyAsync (Host hostOutput i) (Device (deviceOutput 0)) 1 cudaMemcpyDeviceToHost 0,
      cudaMemcpyAsync (Host hostOutput (i + 128)) (Device (deviceOutput 1)) 0 cudaMemcpyDeviceToHost 1,
      cudaMemcpyAsync (Host hostOutput (i + 256)) (Device (deviceOutput 2)) 0 cudaMemcpyDeviceToHost 2,
      cudaMemcpyAsync (Host hostOutput (i + 384)) (Device (deviceOutput 3)) 0 cudaMemcpyDeviceToHost 3]"
  by (simp add: assms chunk_steps_def copy_in_def compute_def copy_out_def for_streams_unroll
      copySize_eq segmentSize_def BLOCK_SIZE_def)

section \<open>The claims\<close>

subsection \<open>Claim C1\<close>

text \<open>
  The run for \<open>inputLength = INT_MAX\<close> with every call succeeding does not return: after
  the last chunk the loop counter overflows. And the run for \<open>inputLength = 1\<close> in which
  the launch on stream 0 fails returns 0 with an output vector that is not the sum.
\<close>

theorem C1_counterexample:
  "(\<forall>k. result ok_platform k = cudaSuccess) \<and>
   fst (main ok_platform 2147483647) = Undefined \<and>
   fst (main (failing_at 25 (cudaErrorCode 719)) 1) = Returned 0 \<and>
   (case exec_events (\<lambda>c k. 7)
           (setup_events (events (failing_at 25 (cudaErrorCode 719))
                            (snd (main (failing_at 25 (cudaErrorCode 719)) 1))) @
            stream_events (events (failing_at 25 (cudaErrorCode 719))
                            (snd (main (failing_at 25 (cudaErrorCode 719)) 1))))
           (start [1] [10 :: int]) of
      Inl f \<Rightarrow> None | Inr m \<Rightarrow> Some (host m hostOutput)) = Some [7] \<and>
   [7] \<noteq> [1 + 10 :: int]"
proof -
  have ok: "\<forall>k. result ok_platform k = cudaSuccess" by (simp add: ok_platform_def)
  have "fst (main ok_platform 2147483647) = Undefined"
    by (rule main_overflows[OF _ ok]) (simp add: INT_MAX_def)
  moreover have "fst (main (failing_at 25 (cudaErrorCode 719)) 1) = Returned 0"
    by (simp add: main_1_failed_launch main_1_trace)
  ultimately show ?thesis using ok failed_launch_output by simp
qed

text \<open>
  Claim C1, amended. Let \<open>0 \<le> inputLength \<le> INT_MAX - 511\<close> and both inputs have that
  length. When every runtime call succeeds, \<open>main\<close> returns 0 and every device operation
  of the run was carried out. In every run that returns 0 and in which every device
  operation was carried out (the kernel launches, whose results the program does not
  look at, included): executing the calls made before the stream work and then the
  stream work it issued, in any order that keeps each stream's calls in issue order,
  raises no fault and leaves \<open>output[idx] = input1[idx] + input2[idx]\<close> at every index
  below \<open>inputLength\<close>. Equality is equality of values of the abstract element type, and
  the sum is the single addition of the kernel.
\<close>

theorem C1_output_is_elementwise_sum:
  assumes "0 \<le> inputLength" "inputLength \<le> INT_MAX - 511"
    and "length in1 = nat inputLength" "length in2 = nat inputLength"
  shows "((\<forall>k. result p k = cudaSuccess) \<longrightarrow>
            fst (main p inputLength) = Returned 0 \<and>
            succeeded (events p (snd (main p inputLength)))) \<and>
         (fst (main p inputLength) = Returned 0 \<and>
          succeeded (events p (snd (main p inputLength))) \<and>
          respects_streams (stream_events (events p (snd (main p inputLength)))) sched \<longrightarrow>
            (\<exists>m. exec_events u (setup_events (events p (snd (main p inputLength))) @ sched)
                   (start in1 in2) = Inr m \<and>
                 length (host m hostOutput) = nat inputLength \<and>
                 (\<forall>idx<nat inputLength. host m hostOutput ! idx = in1 ! idx + in2 ! idx)))"
proof (intro conjI impI)
  assume ok: "\<forall>k. result p k = cudaSuccess"
  show "fst (main p inputLength) = Returned 0"
    "succeeded (events p (snd (main p inputLength)))"
    using main_returns_succeeded[OF assms(2) ok] by simp_all
next
  assume a: "fst (main p inputLength) = Returned 0 \<and>
          succeeded (events p (snd (main p inputLength))) \<and>
          respects_streams (stream_events (events p (snd (main p inputLength)))) sched"
  have n: "inputLength \<le> INT_MAX" using assms(2) by simp
  from a have a1: "fst (main p inputLength) = Returned 0"
    and a2: "succeeded (events p (snd (main p inputLength)))"
    and a3: "respects_streams (stream_events (events p (snd (main p inputLength)))) sched"
    by simp_all
  show "\<exists>m. exec_events u (setup_events (events p (snd (main p inputLength))) @ sched)
                   (start in1 in2) = Inr m \<and>
                 length (host m hostOutput) = nat inputLength \<and>
                 (\<forall>idx<nat inputLength. host m hostOutput ! idx = in1 ! idx + in2 ! idx)"
    by (rule pipeline_events[OF n assms(3,4) a1 a2 a3])
qed

theorem C1_witness:
  "(0::int) \<le> 3 \<and> 3 \<le> INT_MAX - 511 \<and>
   length [1, 2, 3 :: int] = nat 3 \<and> length [10, 20, 30 :: int] = nat 3 \<and>
   (\<forall>k. result ok_platform k = cudaSuccess) \<and>
   fst (main ok_platform 3) = Returned 0 \<and>
   succeeded (events ok_platform (snd (main ok_platform 3))) \<and>
   respects_streams (stream_events (events ok_platform (snd (main ok_platform 3))))
     (stream_events (events ok_platform (snd (main ok_platform 3)))) \<and>
   (\<exists>m. exec_events (\<lambda>c k. 0)
          (setup_events (events ok_platform (snd (main ok_platform 3))) @
           stream_events (events ok_platform (snd (main ok_platform 3))))
          (start [1, 2, 3] [10, 20, 30]) = Inr m \<and>
        host m hostOutput = [11, 22, 33 :: int])"
proof -
  have h: "(0::int) \<le> 3" "3 \<le> INT_MAX - 511" "length [1, 2, 3 :: int] = nat 3"
    "length [10, 20, 30 :: int] = nat 3"
    by (simp_all add: INT_MAX_def)
  have ok: "\<forall>k. result ok_platform k = cudaSuccess" by (simp add: ok_platform_def)
  note t = C1_output_is_elementwise_sum[OF h, of ok_platform
      "stream_events (events ok_platform (snd (main ok_platform 3)))" "\<lambda>c k. 0"]
  have r: "fst (main ok_platform 3) = Returned 0 \<and>
      succeeded (events ok_platform (snd (main ok_platform 3)))"
    by (rule conjunct1[OF t, THEN mp, OF ok])
  note o = respects_streams_refl[of "events ok_platform (snd (main ok_platform 3))"]
  from conjunct2[OF t, THEN mp, OF conjI[OF conjunct1[OF r] conjI[OF conjunct2[OF r] o]]]
  obtain m where
    m: "exec_events (\<lambda>c k. 0)
          (setup_events (events ok_platform (snd (main ok_platform 3))) @
           stream_events (events ok_platform (snd (main ok_platform 3))))
          (start [1, 2, 3] [10, 20, 30 :: int]) = Inr m"
    "length (host m hostOutput) = nat 3"
    "\<forall>idx<nat 3. host m hostOutput ! idx = [1, 2, 3] ! idx + [10, 20, 30] ! idx"
    by (elim exE conjE)
  have "\<forall>k<3. host m hostOutput ! k = [11, 22, 33] ! k"
    using m(3) by (auto simp: less_Suc_eq numeral_3_eq_3)
  then have "host m hostOutput = [11, 22, 33]"
    using m(2) by (intro three_elements) simp_all
  then show ?thesis using h ok r o m(1)
    by (intro conjI exI[of _ m]) simp_all
qed

subsection \<open>Claim C2\<close>

text \<open>
  Claim C2. In every launch the scheduler issues (buffers of \<open>segmentSize\<close> elements,
  \<open>len\<close> the \<open>copySize\<close> of some segment, the grid computed from \<open>segmentSize\<close>):
  \<open>0 \<le> len \<le> segmentSize\<close>; every worker writes \<open>in1[idx] + in2[idx]\<close> to \<open>out[idx]\<close>
  when its global index \<open>idx < len\<close> and writes nothing otherwise, without a fault; and
  the launch as a whole, with its workers run in any order, sets exactly the first
  \<open>len\<close> elements of \<open>out\<close> and leaves the others as they were.
\<close>

theorem C2_kernel_bounds_check:
  assumes "length in1 = nat segmentSize" "length in2 = nat segmentSize"
    and "length out = nat segmentSize"
    and "len = copySize_launch inputLength i s"
    and "set ts = set (threads ((segmentSize - 1) div BLOCK_SIZE + 1) BLOCK_SIZE)"
  shows "0 \<le> len \<and> len \<le> segmentSize \<and>
         (\<forall>bt\<in>set ts.
            vecAdd in1 in2 out len (fst bt) (nat BLOCK_SIZE) (snd bt) =
              Inr (if int (thread_index (nat BLOCK_SIZE) bt) < len
                   then out[thread_index (nat BLOCK_SIZE) bt :=
                          in1 ! thread_index (nat BLOCK_SIZE) bt + in2 ! thread_index (nat BLOCK_SIZE) bt]
                   else out)) \<and>
         run_threads in1 in2 len (nat BLOCK_SIZE) ts out =
           Inr (map (\<lambda>k. if int k < len then in1 ! k + in2 ! k else out ! k) [0..<length out])"
proof (intro conjI ballI)
  show len: "0 \<le> len" "len \<le> segmentSize"
    using copySize_bounds(1,2)[of inputLength i s]
    by (simp_all add: assms(4) copySize_bounds(4) segmentSize_def)
  have g: "(segmentSize - 1) div BLOCK_SIZE + 1 = 1" "0 \<le> BLOCK_SIZE"
    by (simp_all add: segmentSize_def BLOCK_SIZE_def)
  show "run_threads in1 in2 len (nat BLOCK_SIZE) ts out =
           Inr (map (\<lambda>k. if int k < len then in1 ! k + in2 ! k else out ! k) [0..<length out])"
    using len assms(1,2,3,5)
    by (intro launch_any_order[where g = 1]) (simp_all add: g segmentSize_def BLOCK_SIZE_def)
  fix bt assume "bt \<in> set ts"
  then have "bt \<in> set (threads 1 BLOCK_SIZE)" using assms(5) by (simp add: g)
  then have "thread_index (nat BLOCK_SIZE) bt \<in> thread_index (nat BLOCK_SIZE) ` set (threads 1 BLOCK_SIZE)"
    by (rule imageI)
  then have "thread_index (nat BLOCK_SIZE) bt \<in> {0..<nat 1 * nat BLOCK_SIZE}"
    using thread_index_threads[of 1 BLOCK_SIZE] g(2) by simp
  then have "thread_index (nat BLOCK_SIZE) bt < 128" by (simp add: BLOCK_SIZE_def)
  then show "vecAdd in1 in2 out len (fst bt) (nat BLOCK_SIZE) (snd bt) =
              Inr (if int (thread_index (nat BLOCK_SIZE) bt) < len
                   then out[thread_index (nat BLOCK_SIZE) bt :=
                          in1 ! thread_index (nat BLOCK_SIZE) bt + in2 ! thread_index (nat BLOCK_SIZE) bt]
                   else out)"
    using assms(1,2,3)
    by (simp add: vecAdd_def thread_index_def Let_def segmentSize_def del: of_nat_add of_nat_mult)
qed

theorem C2_witness:
  "length (replicate 128 (1::int)) = nat segmentSize \<and>
   length (replicate 128 (2::int)) = nat segmentSize \<and>
   length (replicate 128 (0::int)) = nat segmentSize \<and>
   copySize_launch 513 512 0 = 1 \<and>
   vecAdd (replicate 128 1) (replicate 128 2) (replicate 128 (0::int)) 1 0 (nat BLOCK_SIZE) 0 = Inr (3 # replicate 127 0) \<and>
   vecAdd (replicate 128 1) (replicate 128 2) (replicate 128 (0::int)) 1 0 (nat BLOCK_SIZE) 1 = Inr (replicate 128 0) \<and>
   run_threads (replicate 128 1) (replicate 128 2) (copySize_launch 513 512 0) (nat BLOCK_SIZE)
     (threads ((segmentSize - 1) div BLOCK_SIZE + 1) BLOCK_SIZE) (replicate 128 (0::int)) =
     Inr (map (\<lambda>k. if int k < copySize_launch 513 512 0
                    then replicate 128 1 ! k + replicate 128 2 ! k else replicate 128 0 ! k)
            [0..<length (replicate 128 (0::int))])"
proof -
  have h: "length (replicate 128 (1::int)) = nat segmentSize"
    "length (replicate 128 (2::int)) = nat segmentSize"
    "length (replicate 128 (0::int)) = nat segmentSize"
    by (simp_all add: segmentSize_def)
  have c: "copySize_launch 513 512 0 = 1"
    by (simp add: copySize_launch_def min_macro_def max_macro_def segmentSize_def)
  have t: "(0, 0) \<in> set (threads ((segmentSize - 1) div BLOCK_SIZE + 1) BLOCK_SIZE)"
    "(0, 1) \<in> set (threads ((segmentSize - 1) div BLOCK_SIZE + 1) BLOCK_SIZE)"
    by (simp_all add: threads_def segmentSize_def BLOCK_SIZE_def)
  note th = C2_kernel_bounds_check[OF h refl refl, of 513 512 0]
  have r: "run_threads (replicate 128 1) (replicate 128 2) (copySize_launch 513 512 0) (nat BLOCK_SIZE)
     (threads ((segmentSize - 1) div BLOCK_SIZE + 1) BLOCK_SIZE) (replicate 128 (0::int)) =
     Inr (map (\<lambda>k. if int k < copySize_launch 513 512 0
                    then replicate 128 1 ! k + replicate 128 2 ! k else replicate 128 0 ! k)
            [0..<length (replicate 128 (0::int))])"
    using th by (elim conjE)
  have b: "\<forall>bt\<in>set (threads ((segmentSize - 1) div BLOCK_SIZE + 1) BLOCK_SIZE).
            vecAdd (replicate 128 1) (replicate 128 2) (replicate 128 (0::int)) (copySize_launch 513 512 0)
              (fst bt) (nat BLOCK_SIZE) (snd bt) =
              Inr (if int (thread_index (nat BLOCK_SIZE) bt) < copySize_launch 513 512 0
                   then (replicate 128 0)[thread_index (nat BLOCK_SIZE) bt :=
                          replicate 128 1 ! thread_index (nat BLOCK_SIZE) bt +
                          replicate 128 2 ! thread_index (nat BLOCK_SIZE) bt]
                   else replicate 128 0)"
    using th by (elim conjE)
  have v0: "vecAdd (replicate 128 1) (replicate 128 2) (replicate 128 (0::int)) 1 0 (nat BLOCK_SIZE) 0 = Inr (3 # replicate 127 0)"
    using bspec[OF b t(1)] by (simp add: c thread_index_def numeral_eq_Suc)
  have v1: "vecAdd (replicate 128 1) (replicate 128 2) (replicate 128 (0::int)) 1 0 (nat BLOCK_SIZE) 1 = Inr (replicate 128 0)"
    using bspec[OF b t(2)] by (simp add: c thread_index_def)
  show ?thesis using h c v0 v1 r by (intro conjI)
qed

subsection \<open>Claim C3\<close>

text \<open>
  For \<open>inputLength = INT_MAX\<close> the sweep does not run to its end: after the last chunk the
  increment of the loop counter overflows, and \<open>main\<close> does not return.
\<close>

theorem C3_counterexample:
  "(0::int) \<le> 2147483647 \<and> 2147483647 \<le> INT_MAX \<and>
   SignedOverflow \<in> set (scheduler_loop 2147483647 0) \<and>
   fst (main ok_platform 2147483647) = Undefined"
proof -
  have ok: "\<forall>k. result ok_platform k = cudaSuccess" by (simp add: ok_platform_def)
  from overflow_large[of 2147483647 0] obtain pre where
    "scheduler_loop 2147483647 0 = pre @ [SignedOverflow]"
    by (auto simp: INT_MAX_def)
  then have "SignedOverflow \<in> set (scheduler_loop 2147483647 0)" by simp
  moreover have "fst (main ok_platform 2147483647) = Undefined"
    by (rule main_overflows[OF _ ok]) (simp add: INT_MAX_def)
  ultimately show ?thesis by (simp add: INT_MAX_def)
qed

text \<open>
  Claim C3, amended. For \<open>0 \<le> inputLength \<le> INT_MAX - 511\<close> the sweep of the scheduler
  runs to its end without overflow of the loop counter, and over the calls it issues
  the lengths of the copies from \<open>hostInput1\<close>, of the copies from \<open>hostInput2\<close>, of the
  launches and of the copies to \<open>hostOutput\<close> each add up to \<open>inputLength\<close>. Every call the
  sweep issues is one of the four calls that some chunk \<open>i\<close> queues on some stream \<open>s\<close>,
  and its length is the segment size limited from above by what is left of the input at
  offset \<open>i + s * segmentSize\<close> and from below by zero. A call of length zero is issued like
  any other and, whatever the runtime answers, leaves memory as it is and raises no fault.
\<close>

theorem C3_sweep_covers_input:
  assumes "0 \<le> inputLength" "inputLength \<le> INT_MAX - 511"
  shows "SignedOverflow \<notin> set (scheduler_loop inputLength 0) \<and>
         sum_list (sizes (is_copy_from hostInput1) (calls (scheduler_loop inputLength 0))) = inputLength \<and>
         sum_list (sizes (is_copy_from hostInput2) (calls (scheduler_loop inputLength 0))) = inputLength \<and>
         sum_list (sizes is_launch (calls (scheduler_loop inputLength 0))) = inputLength \<and>
         sum_list (sizes (is_copy_to hostOutput) (calls (scheduler_loop inputLength 0))) = inputLength \<and>
         (\<forall>c\<in>set (calls (scheduler_loop inputLength 0)).
            (\<exists>i s. 0 \<le> i \<and> i mod (segmentSize * N_STREAMS) = 0 \<and> 0 \<le> s \<and> s < N_STREAMS \<and>
                   c \<in> set (on_stream s (calls (chunk_steps inputLength i))) \<and>
                   len_of c = Some (max 0 (min segmentSize (inputLength - (i + s * segmentSize))))) \<and>
            (len_of c = Some 0 \<longrightarrow>
               (\<forall>e m s. stream_of c = Some s \<and> s \<in> streams m \<longrightarrow> exec_event u (c, e) m = Inr m)))"
proof (intro conjI ballI)
  have n: "inputLength \<le> INT_MAX" using assms(2) by simp
  show "SignedOverflow \<notin> set (scheduler_loop inputLength 0)"
    by (rule no_overflow_small[OF assms(2)])
  show "sum_list (sizes (is_copy_from hostInput1) (calls (scheduler_loop inputLength 0))) = inputLength"
    using sweep_sizes[OF sizes_chunk_sum(1) n, of 0] assms(1) by simp
  show "sum_list (sizes (is_copy_from hostInput2) (calls (scheduler_loop inputLength 0))) = inputLength"
    using sweep_sizes[OF sizes_chunk_sum(2) n, of 0] assms(1) by simp
  show "sum_list (sizes is_launch (calls (scheduler_loop inputLength 0))) = inputLength"
    using sweep_sizes[OF sizes_chunk_sum(3) n, of 0] assms(1) by simp
  show "sum_list (sizes (is_copy_to hostOutput) (calls (scheduler_loop inputLength 0))) = inputLength"
    using sweep_sizes[OF sizes_chunk_sum(4) n, of 0] assms(1) by simp
next
  fix c assume "c \<in> set (calls (scheduler_loop inputLength 0))"
  then have "loop_call inputLength c" using loop_calls_all[of 0 c inputLength] by simp
  then obtain i t where it: "0 \<le> i" "i mod 512 = 0" "0 \<le> t" "t < N_STREAMS"
    "c \<in> set (segment_calls inputLength i t)" unfolding loop_call_def by (elim exE conjE)
  have m: "i mod (segmentSize * N_STREAMS) = 0" using it(2) by (simp add: segmentSize_def N_STREAMS_def)
  have on: "c \<in> set (on_stream t (calls (chunk_steps inputLength i)))"
    using it(5) by (simp add: on_stream_chunk[OF it(3,4)])
  show "\<exists>i s. 0 \<le> i \<and> i mod (segmentSize * N_STREAMS) = 0 \<and> 0 \<le> s \<and> s < N_STREAMS \<and>
                   c \<in> set (on_stream s (calls (chunk_steps inputLength i))) \<and>
                   len_of c = Some (max 0 (min segmentSize (inputLength - (i + s * segmentSize))))"
    using it(1,3,4) m on len_of_segment[OF it(5)]
    by (intro exI[of _ i] exI[of _ t] conjI)
  show "len_of c = Some 0 \<longrightarrow>
               (\<forall>e m s. stream_of c = Some s \<and> s \<in> streams m \<longrightarrow> exec_event u (c, e) m = Inr m)"
  proof (intro impI allI)
    fix e s and m :: "'a memory"
    assume z: "len_of c = Some 0" and s: "stream_of c = Some s \<and> s \<in> streams m"
    have "s = t" using stream_of_segment[OF it(5)] s by simp
    then show "exec_event u (c, e) m = Inr m"
      using zero_event_noop[OF it(5) z, of m u e] s by simp
  qed
qed

theorem C3_witness:
  "(0::int) \<le> 513 \<and> 513 \<le> INT_MAX - 511 \<and>
   sizes (is_copy_from hostInput1) (calls (scheduler_loop 513 0)) = [128, 128, 128, 128, 1, 0, 0, 0] \<and>
   sizes (is_copy_from hostInput2) (calls (scheduler_loop 513 0)) = [128, 128, 128, 128, 1, 0, 0, 0] \<and>
   sizes is_launch (calls (scheduler_loop 513 0)) = [128, 128, 128, 128, 1, 0, 0, 0] \<and>
   sizes (is_copy_to hostOutput) (calls (scheduler_loop 513 0)) = [128, 128, 128, 128, 1, 0, 0, 0] \<and>
   sum_list (sizes (is_copy_from hostInput1) (calls (scheduler_loop 513 0))) = 513 \<and>
   vecAdd_launch 1 128 1 (deviceInput1 1) (deviceInput2 1) (deviceOutput 1) 0
     \<in> set (calls (scheduler_loop 513 0)) \<and>
   len_of (vecAdd_launch 1 128 1 (deviceInput1 1) (deviceInput2 1) (deviceOutput 1) 0) = Some 0 \<and>
   exec_event (\<lambda>c k. 0::int)
     (vecAdd_launch 1 128 1 (deviceInput1 1) (deviceInput2 1) (deviceOutput 1) 0, cudaSuccess)
     \<lparr>host = (\<lambda>h. []), device = (\<lambda>b. None), streams = {1}\<rparr>
     = Inr \<lparr>host = (\<lambda>h. []), device = (\<lambda>b. None), streams = {1}\<rparr>"
proof -
  let ?c = "vecAdd_launch 1 128 1 (deviceInput1 1) (deviceInput2 1) (deviceOutput 1) 0"
  let ?m = "\<lparr>host = (\<lambda>h. [] :: int list), device = (\<lambda>b. None), streams = {1}\<rparr>"
  have a: "(0::int) \<le> 513" "513 \<le> INT_MAX - 511" by (simp_all add: INT_MAX_def)
  have z: "copySize_in 513 0 s = 128" "copySize_launch 513 0 s = 128" "copySize_out 513 0 s = 128"
    if "s \<in> {0, 1, 2, 3}" for s
    using that by (auto simp: copySize_eq segmentSize_def)
  have y: "copySize_in 513 512 0 = 1" "copySize_launch 513 512 0 = 1" "copySize_out 513 512 0 = 1"
    "copySize_in 513 512 1 = 0" "copySize_launch 513 512 1 = 0" "copySize_out 513 512 1 = 0"
    "copySize_in 513 512 2 = 0" "copySize_launch 513 512 2 = 0" "copySize_out 513 512 2 = 0"
    "copySize_in 513 512 3 = 0" "copySize_launch 513 512 3 = 0" "copySize_out 513 512 3 = 0"
    by (simp_all add: copySize_eq segmentSize_def)
  have l: "sizes (is_copy_from hostInput1) (calls (scheduler_loop 513 0)) = [128, 128, 128, 128, 1, 0, 0, 0]"
    "sizes (is_copy_from hostInput2) (calls (scheduler_loop 513 0)) = [128, 128, 128, 128, 1, 0, 0, 0]"
    "sizes is_launch (calls (scheduler_loop 513 0)) = [128, 128, 128, 128, 1, 0, 0, 0]"
    "sizes (is_copy_to hostOutput) (calls (scheduler_loop 513 0)) = [128, 128, 128, 128, 1, 0, 0, 0]"
    by (simp_all add: loop_513 sizes_append sizes_chunk z y)
  have c: "?c \<in> set (calls (scheduler_loop 513 0))"
    by (simp add: loop_513 chunk_steps_def copy_in_def compute_def copy_out_def for_streams_unroll
        y segmentSize_def BLOCK_SIZE_def)
  note t = C3_sweep_covers_input[OF a, of "\<lambda>c k. 0::int"]
  from t have s: "sum_list (sizes (is_copy_from hostInput1) (calls (scheduler_loop 513 0))) = 513"
    by (elim conjE)
  from t have "\<forall>c\<in>set (calls (scheduler_loop 513 0)).
      len_of c = Some 0 \<longrightarrow>
        (\<forall>e m s. stream_of c = Some s \<and> s \<in> streams m \<longrightarrow> exec_event (\<lambda>c k. 0::int) (c, e) m = Inr m)"
    by (elim conjE) blast
  from bspec[OF this c] have "exec_event (\<lambda>c k. 0::int) (?c, cudaSuccess) ?m = Inr ?m"
    by simp
  then show ?thesis using a l s c by simp
qed

subsection \<open>Claim C4\<close>

text \<open>
  Claim C4. The copy issued just before the first launch is checked on line 118: when it
  fails the process exits with status \<open>EXIT_FAILURE\<close>. The launch that follows (lines
  125-128) is issued without a check: when it fails, \<open>main\<close> issues the same calls as in a
  run without a failure and returns 0, and the output vector it hands over holds what
  the allocation left there instead of the sum.
\<close>

theorem C4_launch_failure_unnoticed:
  "main_steps 1 ! 24 =
     Checked (cudaMemcpyAsync (Device (deviceInput2 3)) (Host hostInput2 384) 0
                cudaMemcpyHostToDevice 3) 118 \<and>
   fst (main (failing_at 24 (cudaErrorCode 719)) 1) =
     Exited EXIT_FAILURE
       (CHR 0x0A # ''Error found'' @ CHR 0x0A # ''out of memory in Lab7.c at line 118'') \<and>
   EXIT_FAILURE \<noteq> 0 \<and>
   main_steps 1 ! 25 =
     Unchecked (vecAdd_launch 1 128 0 (deviceInput1 0) (deviceInput2 0) (deviceOutput 0) 1) \<and>
   result (failing_at 25 (cudaErrorCode 719)) 25 = cudaErrorCode 719 \<and>
   main (failing_at 25 (cudaErrorCode 719)) 1 = main ok_platform 1 \<and>
   fst (main (failing_at 25 (cudaErrorCode 719)) 1) = Returned 0 \<and>
   (case exec_events (\<lambda>c k. 7)
           (setup_events (events (failing_at 25 (cudaErrorCode 719))
                            (snd (main (failing_at 25 (cudaErrorCode 719)) 1))) @
            stream_events (events (failing_at 25 (cudaErrorCode 719))
                            (snd (main (failing_at 25 (cudaErrorCode 719)) 1))))
           (start [1] [10 :: int]) of
      Inl f \<Rightarrow> None | Inr m \<Rightarrow> Some (host m hostOutput)) = Some [7] \<and>
   [7] \<noteq> [1 + 10 :: int]"
proof -
  have a: "main_steps 1 ! 24 =
     Checked (cudaMemcpyAsync (Device (deviceInput2 3)) (Host hostInput2 384) 0
                cudaMemcpyHostToDevice 3) 118"
    "main_steps 1 ! 25 =
     Unchecked (vecAdd_launch 1 128 0 (deviceInput1 0) (deviceInput2 0) (deviceOutput 0) 1)"
    by (simp_all add: main_steps_1)
  have b: "fst (main (failing_at 25 (cudaErrorCode 719)) 1) = Returned 0"
    by (simp add: main_1_failed_launch main_1_trace)
  show ?thesis
    using a b main_1_failed_copy main_1_failed_launch failed_launch_output
    by (simp add: result_failing_at EXIT_FAILURE_def)
qed

subsection \<open>Claim C5\<close>

text \<open>
  The run for \<open>inputLength = 0\<close> reaches teardown and returns 0; it creates stream 0 and
  never destroys it, and after all its calls have executed the four streams still exist.
\<close>

theorem C5_counterexample:
  "fst (main ok_platform 0) = Returned 0 \<and>
   cudaStreamCreate 0 \<in> set (snd (main ok_platform 0)) \<and>
   cudaStreamDestroy 0 \<notin> set (snd (main ok_platform 0)) \<and>
   (case exec_events (\<lambda>c k. 0::int) (events ok_platform (snd (main ok_platform 0))) (start [] []) of
      Inl f \<Rightarrow> None | Inr m \<Rightarrow> Some (streams m)) = Some {0, 1, 2, 3}"
proof -
  have ok: "\<forall>k. result ok_platform k = cudaSuccess" by (simp add: ok_platform_def)
  have m: "main ok_platform 0 = (Returned 0, calls (main_steps 0))"
    by (rule main_returns) (simp_all add: INT_MAX_def ok_platform_def)
  have e: "exec_events (\<lambda>c k. 0::int) (events ok_platform (snd (main ok_platform 0))) (start [] []) =
        exec_calls (\<lambda>c k. 0::int) (snd (main ok_platform 0)) (start [] [])"
    using exec_events_succeeded[OF succeeded_ok[OF ok],
        of "\<lambda>c k. 0::int" "snd (main ok_platform 0)" "start [] []"]
    by simp
  show ?thesis
    unfolding e
    by (simp add: m main_steps_def scheduler_loop_done setup_steps_def teardown_steps_def
        for_streams_unroll start_def insert_commute)
qed

text \<open>
  Claim C5, amended. In every run that returns 0 the trace is setup, the scheduler loop,
  the hand-over of the output vector, then teardown; each of the \<open>3 * N_STREAMS\<close> device
  buffers is allocated exactly once and released exactly once, every release comes after
  the hand-over, and executed in issue order, each with the status the platform returned
  for it, the calls raise no fault (no buffer is released twice or before it is
  allocated) and leave none of the buffers allocated. Nothing is said about the streams.
\<close>

theorem C5_buffers_released_once:
  assumes "fst (main p inputLength) = Returned 0" "inputLength \<le> INT_MAX"
    and "length in1 = nat inputLength" "length in2 = nat inputLength"
  shows "snd (main p inputLength) =
           calls (setup_steps inputLength) @ calls (scheduler_loop inputLength 0) @
           wbSolution hostOutput inputLength # calls teardown_steps \<and>
         distinct buffer_pool \<and> int (length buffer_pool) = 3 * N_STREAMS \<and>
         filter is_cudaMalloc (snd (main p inputLength)) =
           map (\<lambda>b. cudaMalloc b segmentSize) buffer_pool \<and>
         filter is_cudaFree (snd (main p inputLength)) = map cudaFree buffer_pool \<and>
         filter is_cudaFree (calls (setup_steps inputLength) @
                             calls (scheduler_loop inputLength 0) @
                             [wbSolution hostOutput inputLength]) = [] \<and>
         (\<exists>m. exec_events u (events p (snd (main p inputLength))) (start in1 in2) = Inr m \<and>
              (\<forall>b\<in>set buffer_pool. device m b = None))"
proof -
  note tr = main_trace_Returned[OF assms(1)]
  have pool: "distinct buffer_pool" "int (length buffer_pool) = 3 * N_STREAMS"
    by (simp_all add: buffer_pool_def N_STREAMS_def)
  have al: "filter is_cudaMalloc (snd (main p inputLength)) =
           map (\<lambda>b. cudaMalloc b segmentSize) buffer_pool"
    by (simp add: tr no_alloc_in_loop setup_steps_def teardown_steps_def for_streams_unroll
        buffer_pool_def)
  have fr: "filter is_cudaFree (snd (main p inputLength)) = map cudaFree buffer_pool"
    by (simp add: tr no_alloc_in_loop setup_steps_def teardown_steps_def for_streams_unroll
        buffer_pool_def)
  have before: "filter is_cudaFree (calls (setup_steps inputLength) @
                             calls (scheduler_loop inputLength 0) @
                             [wbSolution hostOutput inputLength]) = []"
    by (simp add: no_alloc_in_loop setup_steps_def for_streams_unroll)
  note run = returned_run[OF assms, where u = u]
  show ?thesis using tr pool al fr before run by (intro conjI)
qed

theorem C5_witness:
  "fst (main ok_platform 1) = Returned 0 \<and> (1::int) \<le> INT_MAX \<and>
   length [5::int] = nat 1 \<and> length [6::int] = nat 1 \<and>
   filter is_cudaMalloc (snd (main ok_platform 1)) = map (\<lambda>b. cudaMalloc b segmentSize) buffer_pool \<and>
   filter is_cudaFree (snd (main ok_platform 1)) = map cudaFree buffer_pool \<and>
   (\<exists>m. exec_events (\<lambda>c k. 0) (events ok_platform (snd (main ok_platform 1))) (start [5] [6::int]) = Inr m \<and>
        device m (deviceInput1 0) = None \<and> device m (deviceOutput 3) = None)"
proof -
  have r: "fst (main ok_platform 1) = Returned 0" by (simp add: main_1_trace)
  have h: "(1::int) \<le> INT_MAX" "length [5::int] = nat 1" "length [6::int] = nat 1"
    by (simp_all add: INT_MAX_def)
  from C5_buffers_released_once[OF r h, of "\<lambda>c k. 0"]
  show ?thesis using r h by (auto simp: buffer_pool_def)
qed

subsection \<open>Claim C6\<close>

text \<open>
  The run for \<open>inputLength = 1\<close> on a platform where every call succeeds: it issues no
  synchronization call, and the hand-over of the output vector follows the last copy
  out directly.
\<close>

theorem C6_counterexample:
  "fst (main ok_platform 1) = Returned 0 \<and>
   cudaDeviceSynchronize \<notin> set (snd (main ok_platform 1)) \<and>
   cudaStreamSynchronize 0 \<notin> set (snd (main ok_platform 1)) \<and>
   cudaStreamSynchronize 1 \<notin> set (snd (main ok_platform 1)) \<and>
   cudaStreamSynchronize 2 \<notin> set (snd (main ok_platform 1)) \<and>
   cudaStreamSynchronize 3 \<notin> set (snd (main ok_platform 1)) \<and>
   snd (main ok_platform 1) ! 32 =
     cudaMemcpyAsync (Host hostOutput 384) (Device (deviceOutput 3)) 0 cudaMemcpyDeviceToHost 3 \<and>
   snd (main ok_platform 1) ! 33 = wbSolution hostOutput 1"
  by (simp add: main_1_trace)

text \<open>
  Claim C6, amended. No run issues a synchronization call: neither \<open>cudaDeviceSynchronize\<close>
  nor \<open>cudaStreamSynchronize\<close> is among the calls of any run. In a run that returns 0 the
  calls are those of setup, those of the scheduler loop, the hand-over of the output
  vector to \<open>wbSolution\<close> and those of teardown, in this order: the hand-over is issued
  directly after the last call of the scheduler loop. Whether a copy has completed when
  the call that issued it returns is not part of the model, and nothing is claimed
  about it.
\<close>

theorem C6_no_synchronization:
  "cudaDeviceSynchronize \<notin> set (snd (main p inputLength)) \<and>
   (\<forall>s. cudaStreamSynchronize s \<notin> set (snd (main p inputLength))) \<and>
   (fst (main p inputLength) = Returned 0 \<longrightarrow>
      snd (main p inputLength) =
        calls (setup_steps inputLength) @ calls (scheduler_loop inputLength 0) @
        wbSolution hostOutput inputLength # calls teardown_steps)"
  using main_trace_subset[of p inputLength] no_sync_issued(1)[of inputLength]
    no_sync_issued(2)[where n = inputLength] main_trace_Returned[of p inputLength]
  by auto

theorem C6_witness:
  "fst (main ok_platform 1) = Returned 0 \<and>
   snd (main ok_platform 1) =
     calls (setup_steps 1) @ calls (scheduler_loop 1 0) @ wbSolution hostOutput 1 # calls teardown_steps"
proof -
  have r: "fst (main ok_platform 1) = Returned 0" by (simp add: main_1_trace)
  from C6_no_synchronization[of ok_platform 1] r show ?thesis by blast
qed

subsection \<open>Claim C7\<close>

text \<open>
  Claim C7. For \<open>inputLength = 0\<close> the scheduler loop has no iteration; on any platform
  the run issues no copy and no launch; and when every runtime call succeeds \<open>main\<close>
  returns 0 and its calls execute without a fault, leaving an empty output vector.
\<close>

theorem C7_empty_input:
  "scheduler_loop 0 0 = [] \<and> stream_work (snd (main p 0)) = [] \<and>
   ((\<forall>k. result p k = cudaSuccess) \<longrightarrow>
      fst (main p 0) = Returned 0 \<and>
      (\<exists>m. exec_events u (events p (snd (main p 0))) (start [] []) = Inr m \<and>
           host m hostOutput = []))"
proof (intro conjI impI)
  show e: "scheduler_loop 0 0 = []" by (simp add: scheduler_loop_done)
  have "stream_work (calls (main_steps 0)) = []"
    by (simp add: stream_work_main e)
  then have "\<forall>c\<in>set (calls (main_steps 0)). stream_of c = None"
    by (simp add: stream_work_empty)
  then show "stream_work (snd (main p 0)) = []"
    using main_trace_subset[of p 0] unfolding stream_work_empty by blast
  assume ok: "\<forall>k. result p k = cudaSuccess"
  have m: "main p 0 = (Returned 0, calls (main_steps 0))"
    using main_returns[OF _ ok, of 0] by (simp add: INT_MAX_def)
  then show "fst (main p 0) = Returned 0" by simp
  have "exec_events u (events p (snd (main p 0))) (start [] []) =
        exec_calls u (snd (main p 0)) (start [] [])"
    using exec_events_succeeded[OF succeeded_ok[OF ok], of u "snd (main p 0)" "start [] []"]
    by simp
  then show "\<exists>m. exec_events u (events p (snd (main p 0))) (start [] []) = Inr m \<and>
      host m hostOutput = []"
    by (simp add: m main_steps_def e setup_steps_def teardown_steps_def for_streams_unroll
        start_def)
qed

theorem C7_witness:
  "(\<forall>k. result ok_platform k = cudaSuccess) \<and>
   stream_work (snd (main ok_platform 0)) = [] \<and>
   fst (main ok_platform 0) = Returned 0 \<and>
   (\<exists>m. exec_events (\<lambda>c k. 0::int) (events ok_platform (snd (main ok_platform 0)))
          (start [] []) = Inr m \<and>
        host m hostOutput = [])"
proof -
  have ok: "\<forall>k. result ok_platform k = cudaSuccess" by (simp add: ok_platform_def)
  from C7_empty_input[of ok_platform "\<lambda>c k. 0::int"] ok show ?thesis by simp
qed

subsection \<open>Claim C8\<close>

text \<open>
  For \<open>inputLength = 4194303 * 512 + 1\<close>, one past a multiple of 512, the run with every
  call succeeding does not return: after the final chunk the loop counter overflows.
\<close>

theorem C8_counterexample:
  "(2147483137::int) = 4194303 * (segmentSize * N_STREAMS) + 1 \<and> 2147483137 \<le> INT_MAX \<and>
   (\<forall>k. result ok_platform k = cudaSuccess) \<and>
   SignedOverflow \<in> set (scheduler_loop 2147483137 0) \<and>
   fst (main ok_platform 2147483137) = Undefined"
proof -
  have ok: "\<forall>k. result ok_platform k = cudaSuccess" by (simp add: ok_platform_def)
  from overflow_large[of 2147483137 0] obtain pre where
    "scheduler_loop 2147483137 0 = pre @ [SignedOverflow]"
    by (auto simp: INT_MAX_def)
  then have "SignedOverflow \<in> set (scheduler_loop 2147483137 0)" by simp
  moreover have "fst (main ok_platform 2147483137) = Undefined"
    by (rule main_overflows[OF _ ok]) (simp add: INT_MAX_def)
  ultimately show ?thesis using ok by (simp add: INT_MAX_def segmentSize_def N_STREAMS_def)
qed

text \<open>
  Claim C8, amended. For \<open>inputLength = q * (segmentSize * N_STREAMS) + 1\<close> with
  \<open>inputLength \<le> INT_MAX - 511\<close>: the sweep runs to its end without overflow of the loop
  counter and the last thing it issues is the chunk at \<open>i = q * (segmentSize * N_STREAMS)\<close>;
  the sixteen calls of that chunk are the ones listed, with length 1 on stream 0 and
  length 0 on streams 1, 2 and 3 in all three phases; each call of that chunk on streams
  1, 2 and 3, whatever the runtime answers, leaves memory as it is and raises no fault;
  and in a run in which every call succeeds \<open>main\<close> returns 0 and its calls, in any
  stream-respecting order, execute without a fault, that is without any access outside
  a host array or a device buffer.
\<close>

theorem C8_one_past_a_multiple:
  assumes "0 \<le> q" "inputLength = q * (segmentSize * N_STREAMS) + 1"
    and "inputLength \<le> INT_MAX - 511" "i = q * (segmentSize * N_STREAMS)"
    and "length in1 = nat inputLength" "length in2 = nat inputLength"
    and "\<forall>k. result p k = cudaSuccess"
    and "respects_streams (stream_events (events p (snd (main p inputLength)))) sched"
  shows "SignedOverflow \<notin> set (scheduler_loop inputLength 0) \<and>
         (\<exists>pre. scheduler_loop inputLength 0 = pre @ chunk_steps inputLength i) \<and>
         calls (chunk_steps inputLength i) =
           [cudaMemcpyAsync (Device (deviceInput1 0)) (Host hostInput1 i) 1 cudaMemcpyHostToDevice 0,
            cudaMemcpyAsync (Device (deviceInput2 0)) (Host hostInput2 i) 1 cudaMemcpyHostToDevice 0,
            cudaMemcpyAsync (Device (deviceInput1 1)) (Host hostInput1 (i + 128)) 0 cudaMemcpyHostToDevice 1,
            cudaMemcpyAsync (Device (deviceInput2 1)) (Host hostInput2 (i + 128)) 0 cudaMemcpyHostToDevice 1,
            cudaMemcpyAsync (Device (deviceInput1 2)) (Host hostInput1 (i + 256)) 0 cudaMemcpyHostToDevice 2,
            cudaMemcpyAsync (Device (deviceInput2 2)) (Host hostInput2 (i + 256)) 0 cudaMemcpyHostToDevice 2,
            cudaMemcpyAsync (Device (deviceInput1 3)) (Host hostInput1 (i + 384)) 0 cudaMemcpyHostToDevice 3,
            cudaMemcpyAsync (Device (deviceInput2 3)) (Host hostInput2 (i + 384)) 0 cudaMemcpyHostToDevice 3,
            vecAdd_launch 1 128 0 (deviceInput1 0) (deviceInput2 0) (deviceOutput 0) 1,
            vecAdd_launch 1 128 1 (deviceInput1 1) (deviceInput2 1) (deviceOutput 1) 0,
            vecAdd_launch 1 128 2 (deviceInput1 2) (deviceInput2 2) (deviceOutput 2) 0,
            vecAdd_launch 1 128 3 (deviceInput1 3) (deviceInput2 3) (deviceOutput 3) 0,
            cudaMemcpyAsync (Host hostOutput i) (Device (deviceOutput 0)) 1 cudaMemcpyDeviceToHost 0,
            cudaMemcpyAsync (Host hostOutput (i + 128)) (Device (deviceOutput 1)) 0 cudaMemcpyDeviceToHost 1,
            cudaMemcpyAsync (Host hostOutput (i + 256)) (Device (deviceOutput 2)) 0 cudaMemcpyDeviceToHost 2,
            cudaMemcpyAsync (Host hostOutput (i + 384)) (Device (deviceOutput 3)) 0 cudaMemcpyDeviceToHost 3] \<and>
         (\<forall>c\<in>set (calls (chunk_steps inputLength i)). \<forall>s\<in>{1, 2, 3}.
            stream_of c = Some s \<longrightarrow>
              len_of c = Some 0 \<and> (\<forall>e m. s \<in> streams m \<longrightarrow> exec_event u (c, e) m = Inr m)) \<and>
         fst (main p inputLength) = Returned 0 \<and>
         (\<exists>m. exec_events u (setup_events (events p (snd (main p inputLength))) @ sched)
                (start in1 in2) = Inr m)"
proof -
  have n: "inputLength = 512 * q + 1" and i: "i = 512 * q"
    using assms(2,4) by (simp_all add: segmentSize_def N_STREAMS_def)
  have n': "inputLength = i + 1" using n i by simp
  have le: "inputLength \<le> INT_MAX" using assms(3) by simp
  have a: "SignedOverflow \<notin> set (scheduler_loop inputLength 0)"
    by (rule no_overflow_small[OF assms(3)])
  have b: "\<exists>pre. scheduler_loop inputLength 0 = pre @ chunk_steps inputLength i"
    unfolding i by (rule last_chunk_is_last[OF n assms(3,1)])
  note c = last_chunk_calls[OF n']
  have d: "len_of c = Some 0 \<and> (\<forall>e m. s \<in> streams m \<longrightarrow> exec_event u (c, e) m = Inr m)"
    if c: "c \<in> set (calls (chunk_steps inputLength i))" and s: "s \<in> {1, 2, 3}"
      and st: "stream_of c = Some s" for c s
  proof -
    from stream_of_chunk[OF c] obtain t where
      t: "0 \<le> t" "t < N_STREAMS" "c \<in> set (segment_calls inputLength i t)" by (elim exE conjE)
    have ts: "t = s" using stream_of_segment[OF t(3)] st by simp
    have "copySize_in inputLength i s = 0" using s by (auto simp: copySize_eq n' segmentSize_def)
    then have z: "len_of c = Some 0"
      using t(3) unfolding ts by (auto simp: segment_calls_def copySize_bounds(4,5))
    have "exec_event u (c, e) m = Inr m" if "s \<in> streams m" for e and m :: "'a memory"
      using zero_event_noop[OF t(3) z, of m u e] that ts by simp
    then show ?thesis using z by simp
  qed
  note r = main_returns_succeeded[OF assms(3,7)]
  from pipeline_events[OF le assms(5,6) r assms(8), where u = u]
  have e: "\<exists>m. exec_events u (setup_events (events p (snd (main p inputLength))) @ sched)
                (start in1 in2) = Inr m"
    by (elim exE conjE) (rule exI)
  show ?thesis using a b c d r(1) e by (intro conjI ballI impI) simp_all
qed

theorem C8_witness:
  "(0::int) \<le> 1 \<and> (513::int) = 1 * (segmentSize * N_STREAMS) + 1 \<and> 513 \<le> INT_MAX - 511 \<and>
   (512::int) = 1 * (segmentSize * N_STREAMS) \<and>
   length (replicate 513 (1::int)) = nat 513 \<and> length (replicate 513 (2::int)) = nat 513 \<and>
   (\<forall>k. result ok_platform k = cudaSuccess) \<and>
   respects_streams (stream_events (events ok_platform (snd (main ok_platform 513))))
     (stream_events (events ok_platform (snd (main ok_platform 513)))) \<and>
   cudaMemcpyAsync (Host hostOutput 640) (Device (deviceOutput 1)) 0 cudaMemcpyDeviceToHost 1
     \<in> set (calls (chunk_steps 513 512)) \<and>
   exec_event (\<lambda>c k. 0::int)
     (cudaMemcpyAsync (Host hostOutput 640) (Device (deviceOutput 1)) 0 cudaMemcpyDeviceToHost 1,
      cudaSuccess)
     \<lparr>host = (\<lambda>h. []), device = (\<lambda>b. None), streams = {1}\<rparr>
     = Inr \<lparr>host = (\<lambda>h. []), device = (\<lambda>b. None), streams = {1}\<rparr> \<and>
   fst (main ok_platform 513) = Returned 0 \<and>
   (\<exists>m. exec_events (\<lambda>c k. 0)
          (setup_events (events ok_platform (snd (main ok_platform 513))) @
           stream_events (events ok_platform (snd (main ok_platform 513))))
          (start (replicate 513 1) (replicate 513 (2::int))) = Inr m)"
proof -
  let ?c = "cudaMemcpyAsync (Host hostOutput 640) (Device (deviceOutput 1)) 0 cudaMemcpyDeviceToHost 1"
  let ?m = "\<lparr>host = (\<lambda>h. [] :: int list), device = (\<lambda>b. None), streams = {1}\<rparr>"
  have h: "(0::int) \<le> 1" "(513::int) = 1 * (segmentSize * N_STREAMS) + 1" "(513::int) \<le> INT_MAX - 511"
    "(512::int) = 1 * (segmentSize * N_STREAMS)"
    "length (replicate 513 (1::int)) = nat 513" "length (replicate 513 (2::int)) = nat 513"
    by (simp_all add: segmentSize_def N_STREAMS_def INT_MAX_def)
  have ok: "\<forall>k. result ok_platform k = cudaSuccess" by (simp add: ok_platform_def)
  note o = respects_streams_refl[of "events ok_platform (snd (main ok_platform 513))"]
  note t = C8_one_past_a_multiple[OF h ok o, of "\<lambda>c k. 0"]
  from t have l: "calls (chunk_steps 513 512) =
           [cudaMemcpyAsync (Device (deviceInput1 0)) (Host hostInput1 512) 1 cudaMemcpyHostToDevice 0,
            cudaMemcpyAsync (Device (deviceInput2 0)) (Host hostInput2 512) 1 cudaMemcpyHostToDevice 0,
            cudaMemcpyAsync (Device (deviceInput1 1)) (Host hostInput1 (512 + 128)) 0 cudaMemcpyHostToDevice 1,
            cudaMemcpyAsync (Device (deviceInput2 1)) (Host hostInput2 (512 + 128)) 0 cudaMemcpyHostToDevice 1,
            cudaMemcpyAsync (Device (deviceInput1 2)) (Host hostInput1 (512 + 256)) 0 cudaMemcpyHostToDevice 2,
            cudaMemcpyAsync (Device (deviceInput2 2)) (Host hostInput2 (512 + 256)) 0 cudaMemcpyHostToDevice 2,
            cudaMemcpyAsync (Device (deviceInput1 3)) (Host hostInput1 (512 + 384)) 0 cudaMemcpyHostToDevice 3,
            cudaMemcpyAsync (Device (deviceInput2 3)) (Host hostInput2 (512 + 384)) 0 cudaMemcpyHostToDevice 3,
            vecAdd_launch 1 128 0 (deviceInput1 0) (deviceInput2 0) (deviceOutput 0) 1,
            vecAdd_launch 1 128 1 (deviceInput1 1) (deviceInput2 1) (deviceOutput 1) 0,
            vecAdd_launch 1 128 2 (deviceInput1 2) (deviceInput2 2) (deviceOutput 2) 0,
            vecAdd_launch 1 128 3 (deviceInput1 3) (deviceInput2 3) (deviceOutput 3) 0,
            cudaMemcpyAsync (Host hostOutput 512) (Device (deviceOutput 0)) 1 cudaMemcpyDeviceToHost 0,
            cudaMemcpyAsync (Host hostOutput (512 + 128)) (Device (deviceOutput 1)) 0 cudaMemcpyDeviceToHost 1,
            cudaMemcpyAsync (Host hostOutput (512 + 256)) (Device (deviceOutput 2)) 0 cudaMemcpyDeviceToHost 2,
            cudaMemcpyAsync (Host hostOutput (512 + 384)) (Device (deviceOutput 3)) 0 cudaMemcpyDeviceToHost 3]"
    by (elim conjE)
  have c: "?c \<in> set (calls (chunk_steps 513 512))" unfolding l by simp
  from t have "\<forall>c\<in>set (calls (chunk_steps 513 512)). \<forall>s\<in>{1, 2, 3}.
            stream_of c = Some s \<longrightarrow>
              len_of c = Some 0 \<and>
              (\<forall>e m. s \<in> streams m \<longrightarrow> exec_event (\<lambda>c k. 0::int) (c, e) m = Inr m)"
    by (elim conjE)
  from bspec[OF this c] have x: "exec_event (\<lambda>c k. 0::int) (?c, cudaSuccess) ?m = Inr ?m"
    by simp
  from t have r: "fst (main ok_platform 513) = Returned 0" by (elim conjE)
  from t have e: "\<exists>m. exec_events (\<lambda>c k. 0)
          (setup_events (events ok_platform (snd (main ok_platform 513))) @
           stream_events (events ok_platform (snd (main ok_platform 513))))
          (start (replicate 513 1) (replicate 513 (2::int))) = Inr m"
    by (elim conjE)
  show ?thesis using h ok o c x r e by (intro conjI)
qed

subsection \<open>Claim C9\<close>



subsection \<open>Claim C10\<close>

text \<open>
  Claim C10. For every chunk start \<open>i\<close> and every stream \<open>s\<close> of the pool, the length of
  the two copies in, the \<open>len\<close> argument of the launch and the length of the copy out
  are the same number, \<open>max (min segmentSize (inputLength - i - s * segmentSize)) 0\<close>: the
  calls the chunk queues on stream \<open>s\<close> are exactly the four listed, in this order.
\<close>

theorem C10_phase_lengths_agree:
  assumes "0 \<le> s" "s < N_STREAMS"
    and "L = max (min segmentSize (inputLength - i - s * segmentSize)) 0"
  shows "copySize_in inputLength i s = L \<and> copySize_launch inputLength i s = L \<and>
         copySize_out inputLength i s = L \<and>
         on_stream s (calls (chunk_steps inputLength i)) =
           [cudaMemcpyAsync (Device (deviceInput1 s)) (Host hostInput1 (i + s * segmentSize))
              L cudaMemcpyHostToDevice s,
            cudaMemcpyAsync (Device (deviceInput2 s)) (Host hostInput2 (i + s * segmentSize))
              L cudaMemcpyHostToDevice s,
            vecAdd_launch ((segmentSize - 1) div BLOCK_SIZE + 1) BLOCK_SIZE s
              (deviceInput1 s) (deviceInput2 s) (deviceOutput s) L,
            cudaMemcpyAsync (Host hostOutput (i + s * segmentSize)) (Device (deviceOutput s))
              L cudaMemcpyDeviceToHost s]"
  using on_stream_chunk[OF assms(1,2), of inputLength i] assms(3)
  by (simp add: copySize_eq segment_calls_def)

theorem C10_witness:
  "(0::int) \<le> 1 \<and> 1 < N_STREAMS \<and>
   copySize_in 200 0 1 = 72 \<and> copySize_launch 200 0 1 = 72 \<and> copySize_out 200 0 1 = 72 \<and>
   on_stream 1 (calls (chunk_steps 200 0)) =
     [cudaMemcpyAsync (Device (deviceInput1 1)) (Host hostInput1 128) 72 cudaMemcpyHostToDevice 1,
      cudaMemcpyAsync (Device (deviceInput2 1)) (Host hostInput2 128) 72 cudaMemcpyHostToDevice 1,
      vecAdd_launch 1 128 1 (deviceInput1 1) (deviceInput2 1) (deviceOutput 1) 72,
      cudaMemcpyAsync (Host hostOutput 128) (Device (deviceOutput 1)) 72 cudaMemcpyDeviceToHost 1]"
  using C10_phase_lengths_agree[of 1 72 200 0]
  by (simp add: N_STREAMS_def segmentSize_def BLOCK_SIZE_def)

end
